theory Spec2Isabelle
  imports Complex_Main "HOL-Library.AList" "HOL-Library.Multiset"
begin

section \<open>Data model of \<open>meshless/espim/read_mesh.py\<close>\<close>

text \<open>
  The module builds the node/edge/triangle cross references of a triangular mesh, either
  from a parsed Nastran deck (\<open>read_mesh\<close>) or from a point cloud and its triangulation
  (\<open>read_delaunay\<close>).

  The Python objects refer to each other; the embedding names every object by an address
  and keeps the objects in stores:
  \<^item> a node is addressed by its key in \<open>mesh.nodes\<close> (the code itself reaches nodes only
    through \<open>mesh.nodes[n]\<close>);
  \<^item> a triangle is addressed by its position in the list \<open>trias\<close>, which is the order of
    \<open>mesh.elements.values()\<close>;
  \<^item> an \<open>Edge\<close> object is addressed by the key under which it is stored in \<open>edges\<close>; the
    loop that creates the edges creates exactly one object per key of \<open>edges_ids\<close>.

  Dictionaries that the code iterates (\<open>edges_ids\<close>, \<open>edges\<close>) are association lists in
  insertion order, which is the iteration order of a Python dictionary.
\<close>

datatype error =
    NotImplementedError string
  | KeyError int
  | IndexError
  | ValueError
  | AssertionError

type_synonym edge_key = "int \<times> int"

text \<open>
  A \<open>GRID\<close> object with the attributes the module sets on it. \<open>node_trias\<close> holds
  element ids, \<open>node_edges\<close> holds \<open>Edge\<close> objects.
\<close>

record node =
  nid :: int
  xyz :: "real list"
  node_trias :: "int set"
  node_edges :: "edge_key set"
  node_index :: "nat set"
  node_prop :: "unit option"

text \<open>A \<open>CTRIA3\<close> element: \<open>tria_edges\<close> is the attribute \<open>edges\<close>, a list of \<open>Edge\<close> objects.\<close>

record tria =
  eid :: int
  node_ids :: "int \<times> int \<times> int"
  tria_edges :: "edge_key list"
  tria_prop :: "unit option"

text \<open>
  Modelled from the spec: the class \<open>Edge\<close> of \<open>meshless/espim/classes.py\<close> is not among
  the sources. An edge holds references to its two endpoint nodes, in the order of the
  constructor's arguments, and the list of its supporting triangles (attribute \<open>trias\<close>).
\<close>

record edge =
  edge_n1 :: int
  edge_n2 :: int
  edge_trias :: "nat list"

text \<open>
  An element of a parsed deck is a \<open>CTRIA3\<close> or an object of another class, of which only
  the class name matters (it goes into the error message).
\<close>

datatype element = is_CTRIA3: CTRIA3 (the_tria: tria) | OtherElement (type_name: string)

text \<open>The \<open>BDF\<close> object as \<open>read_bdf\<close> returns it, and as the two functions return it.\<close>

record bdf =
  bdf_nodes :: "int \<rightharpoonup> node"
  bdf_elements :: "element list"

record mesh =
  mesh_nodes :: "int \<rightharpoonup> node"
  mesh_elements :: "tria list"
  mesh_edges :: "(edge_key \<times> edge) list"

section \<open>Edge keys\<close>

text \<open>
  Modelled from the spec: \<open>get_edge_ids\<close> is a method of the external class \<open>CTRIA3\<close>.
  It yields the three node pairs of the triangle in the local order 0-1, 1-2, 2-0, each
  pair sorted ascending so that the key does not depend on the order of the endpoints.
\<close>

definition sorted_pair :: "int \<Rightarrow> int \<Rightarrow> edge_key" where
  "sorted_pair a b = (if a \<le> b then (a, b) else (b, a))"

definition get_edge_ids :: "tria \<Rightarrow> edge_key list" where
  "get_edge_ids t =
     (case node_ids t of (a, b, c) \<Rightarrow> [sorted_pair a b, sorted_pair b c, sorted_pair c a])"

text \<open>The attribute \<open>node_ids\<close> of a triangle as the list that line 58 iterates.\<close>

definition node_id_list :: "tria \<Rightarrow> int list" where
  "node_id_list t = (case node_ids t of (a, b, c) \<Rightarrow> [a, b, c])"

section \<open>The four passes shared by \<open>read_mesh\<close> and \<open>read_delaunay\<close>\<close>

text \<open>
  \<open>edges_ids[edge_id].append(tria)\<close> on a \<open>defaultdict(list)\<close>: a key that is missing is
  inserted at the end with the one-element list.
\<close>

fun dd_append :: "'k \<Rightarrow> 'v \<Rightarrow> ('k \<times> 'v list) list \<Rightarrow> ('k \<times> 'v list) list" where
  "dd_append k v [] = [(k, [v])]"
| "dd_append k v ((k', vs) # d) =
     (if k = k' then (k', vs @ [v]) # d else (k', vs) # dd_append k v d)"

text \<open>Lines 44-46 and 122-124: every triangle is appended under each of its edge keys.\<close>

definition accumulate_edges_ids :: "tria list \<Rightarrow> (edge_key \<times> nat list) list" where
  "accumulate_edges_ids trias =
     fold (\<lambda>(i, t). fold (\<lambda>k. dd_append k i) (get_edge_ids t)) (enumerate 0 trias) []"

text \<open>
  Lines 48-53 and 125-130: one \<open>Edge\<close> per item of \<open>edges_ids\<close>. Both \<open>mesh.nodes[n1]\<close>
  and \<open>mesh.nodes[n2]\<close> are looked up when the edge is constructed, and a missing key
  raises \<open>KeyError\<close>. \<open>add_edge\<close> is \<open>mesh.nodes[n].edges.add(edge)\<close>; it runs only
  after both lookups have succeeded.
\<close>

definition add_edge :: "int \<Rightarrow> edge_key \<Rightarrow> (int \<rightharpoonup> node) \<Rightarrow> (int \<rightharpoonup> node)" where
  "add_edge n k nodes =
     (case nodes n of None \<Rightarrow> nodes
      | Some nd \<Rightarrow> nodes(n \<mapsto> nd\<lparr>node_edges := insert k (node_edges nd)\<rparr>))"

fun create_edges ::
  "(edge_key \<times> nat list) list \<Rightarrow> (int \<rightharpoonup> node) \<times> (edge_key \<times> edge) list \<Rightarrow>
     error + ((int \<rightharpoonup> node) \<times> (edge_key \<times> edge) list)" where
  "create_edges [] s = Inr s"
| "create_edges (((a, b), e_trias) # items) (nodes, edges) =
     (if nodes a = None then Inl (KeyError a)
      else if nodes b = None then Inl (KeyError b)
      else create_edges items
             (add_edge b (a, b) (add_edge a (a, b) nodes),
              AList.update (a, b) \<lparr>edge_n1 = a, edge_n2 = b, edge_trias = e_trias\<rparr> edges))"

text \<open>Lines 54-56 and 131-133: \<open>tria.edges.append(edge)\<close>, edge by edge.\<close>

definition append_edge :: "edge_key \<Rightarrow> nat \<Rightarrow> tria list \<Rightarrow> tria list" where
  "append_edge k i trias = trias[i := (trias ! i)\<lparr>tria_edges := tria_edges (trias ! i) @ [k]\<rparr>]"

definition attach_edges :: "(edge_key \<times> edge) list \<Rightarrow> tria list \<Rightarrow> tria list" where
  "attach_edges edges trias =
     fold (\<lambda>(k, e). fold (append_edge k) (edge_trias e)) edges trias"

text \<open>Lines 57-59 and 134-136: \<open>mesh.nodes[nid].trias.add(tria.eid)\<close>.\<close>

fun add_tria :: "int \<Rightarrow> int list \<Rightarrow> (int \<rightharpoonup> node) \<Rightarrow> error + (int \<rightharpoonup> node)" where
  "add_tria e [] nodes = Inr nodes"
| "add_tria e (n # ns) nodes =
     (case nodes n of None \<Rightarrow> Inl (KeyError n)
      | Some nd \<Rightarrow> add_tria e ns (nodes(n \<mapsto> nd\<lparr>node_trias := insert e (node_trias nd)\<rparr>)))"

fun attach_trias :: "tria list \<Rightarrow> (int \<rightharpoonup> node) \<Rightarrow> error + (int \<rightharpoonup> node)" where
  "attach_trias [] nodes = Inr nodes"
| "attach_trias (t # ts) nodes =
     (case add_tria (eid t) (node_id_list t) nodes of
        Inl e \<Rightarrow> Inl e
      | Inr nodes' \<Rightarrow> attach_trias ts nodes')"

text \<open>
  Lines 42-61 of \<open>read_mesh\<close>, which are lines 120-137 of \<open>read_delaunay\<close>. Line 47
  only copies the node references of a triangle into the attribute \<open>nodes\<close>, which
  none of the passes reads.
\<close>

definition edge_references :: "(int \<rightharpoonup> node) \<Rightarrow> tria list \<Rightarrow> error + mesh" where
  "edge_references nodes trias =
     (case create_edges (accumulate_edges_ids trias) (nodes, []) of
        Inl e \<Rightarrow> Inl e
      | Inr (nodes1, edges) \<Rightarrow>
          (let trias1 = attach_edges edges trias in
           case attach_trias trias1 nodes1 of
             Inl e \<Rightarrow> Inl e
           | Inr nodes2 \<Rightarrow>
               Inr \<lparr>mesh_nodes = nodes2, mesh_elements = trias1, mesh_edges = edges\<rparr>))"

section \<open>\<open>read_mesh\<close>\<close>

text \<open>Lines 27-31: the adjacency attributes of every node are reset.\<close>

definition init_node :: "node \<Rightarrow> node" where
  "init_node nd = nd\<lparr>node_trias := {}, node_edges := {}, node_index := {}, node_prop := None\<rparr>"

text \<open>Lines 33-41: the first element that is not a \<open>CTRIA3\<close> raises.\<close>

definition init_tria :: "tria \<Rightarrow> tria" where
  "init_tria t = t\<lparr>tria_edges := [], tria_prop := None\<rparr>"

fun collect_trias :: "element list \<Rightarrow> tria list \<Rightarrow> error + tria list" where
  "collect_trias [] trias = Inr trias"
| "collect_trias (CTRIA3 t # elems) trias = collect_trias elems (trias @ [init_tria t])"
| "collect_trias (OtherElement ty # elems) trias = Inl (NotImplementedError ty)"

definition read_mesh :: "bdf \<Rightarrow> error + mesh" where
  "read_mesh deck =
     (let nodes = (\<lambda>n. map_option init_node (bdf_nodes deck n)) in
      case collect_trias (bdf_elements deck) [] of
        Inl e \<Rightarrow> Inl e
      | Inr trias \<Rightarrow> edge_references nodes trias)"

section \<open>\<open>read_delaunay\<close>\<close>

text \<open>Indexing a Python list: a negative index counts from the end.\<close>

definition getitem :: "'a list \<Rightarrow> int \<Rightarrow> error + 'a" where
  "getitem xs i =
     (if 0 \<le> i \<and> i < int (length xs) then Inr (xs ! nat i)
      else if - int (length xs) \<le> i \<and> i < 0 then Inr (xs ! nat (int (length xs) + i))
      else Inl IndexError)"

text \<open>Lines 95-96: only a point of length 2 gets a third coordinate.\<close>

definition pad_point :: "real list \<Rightarrow> real list" where
  "pad_point pt = (if length pt = 2 then [pt ! 0, pt ! 1, 0] else pt)"

text \<open>
  The node object that line 98 and lines 99-102 make: the coordinates as given, and the
  adjacency attributes empty.
\<close>

definition grid_node :: "int \<Rightarrow> real list \<Rightarrow> node" where
  "grid_node n pt = \<lparr>nid = n, xyz = pt, node_trias = {}, node_edges = {}, node_index = {},
                     node_prop = None\<rparr>"

text \<open>
  Modelled from the spec: the constructor \<open>GRID\<close> belongs to the external parser library
  and is not among the sources. A node has exactly 3 coordinates: the constructor keeps
  the coordinates it is given and asserts that there are 3 of them, so that
  \<open>GRID(nid, cp=0, cd=0, xyz=pt)\<close> raises \<open>AssertionError\<close> for any other number.
\<close>

definition GRID :: "int \<Rightarrow> real list \<Rightarrow> error + node" where
  "GRID n pt = (if length pt = 3 then Inr (grid_node n pt) else Inl AssertionError)"

text \<open>
  Lines 94-104. The state is the counter \<open>nid\<close>, the list \<open>nodes\<close> and the dictionary
  \<open>mesh.nodes\<close>. The loop stops at the first point that \<open>GRID\<close> refuses.
\<close>

fun nodes_loop ::
  "real list list \<Rightarrow> int \<times> node list \<times> (int \<rightharpoonup> node) \<Rightarrow>
     error + (int \<times> node list \<times> (int \<rightharpoonup> node))" where
  "nodes_loop [] s = Inr s"
| "nodes_loop (pt # points) (n, nodes, mnodes) =
     (case GRID (n + 1) (pad_point pt) of
        Inl e \<Rightarrow> Inl e
      | Inr node \<Rightarrow> nodes_loop points (n + 1, nodes @ [node], mnodes(n + 1 \<mapsto> node)))"

text \<open>
  Lines 107-119. A row of \<open>tri.simplices\<close> that does not unpack into three indices raises
  \<open>ValueError\<close>; an index outside the list \<open>nodes\<close> raises \<open>IndexError\<close>.
\<close>

fun trias_loop :: "int list list \<Rightarrow> node list \<Rightarrow> int \<times> tria list \<Rightarrow> error + tria list" where
  "trias_loop [] nodes (e, trias) = Inr trias"
| "trias_loop ([i1, i2, i3] # simplices) nodes (e, trias) =
     (case getitem nodes i1 of Inl err \<Rightarrow> Inl err | Inr n1 \<Rightarrow>
     (case getitem nodes i2 of Inl err \<Rightarrow> Inl err | Inr n2 \<Rightarrow>
     (case getitem nodes i3 of Inl err \<Rightarrow> Inl err | Inr n3 \<Rightarrow>
        trias_loop simplices nodes
          (e + 1,
           trias @ [\<lparr>eid = e + 1, node_ids = (nid n1, nid n2, nid n3), tria_edges = [],
                     tria_prop = None\<rparr>]))))"
| "trias_loop (row # simplices) nodes (e, trias) = Inl ValueError"

definition read_delaunay :: "real list list \<Rightarrow> int list list \<Rightarrow> error + mesh" where
  "read_delaunay points simplices =
     (case nodes_loop points (0, [], Map.empty) of
        Inl e \<Rightarrow> Inl e
      | Inr (n, nodes, mnodes) \<Rightarrow>
          (case trias_loop simplices nodes (0, []) of
             Inl e \<Rightarrow> Inl e
           | Inr trias \<Rightarrow> edge_references mnodes trias))"

section \<open>Notions used in the statements and proofs\<close>

text \<open>The pairs (edge key, triangle) in the order in which lines 44-46 visit them.\<close>

definition occurrences :: "tria list \<Rightarrow> (edge_key \<times> nat) list" where
  "occurrences trias =
     concat (map (\<lambda>(i, t). map (\<lambda>k. (k, i)) (get_edge_ids t)) (enumerate 0 trias))"

text \<open>The dictionary that appending a list of pairs one by one builds.\<close>

definition group_by_key :: "('k \<times> 'v) list \<Rightarrow> ('k \<times> 'v list) list \<Rightarrow> ('k \<times> 'v list) list" where
  "group_by_key ps d = fold (\<lambda>(k, v). dd_append k v) ps d"

text \<open>A node with more incident edges.\<close>

definition with_edges :: "edge_key set \<Rightarrow> node \<Rightarrow> node" where
  "with_edges S nd = nd\<lparr>node_edges := node_edges nd \<union> S\<rparr>"

text \<open>A node with more incident triangles.\<close>

definition with_trias :: "int set \<Rightarrow> node \<Rightarrow> node" where
  "with_trias S nd = nd\<lparr>node_trias := node_trias nd \<union> S\<rparr>"

text \<open>The entry of \<open>edges\<close> made from one item of \<open>edges_ids\<close> (lines 49-51).\<close>

definition edge_of_item :: "edge_key \<times> nat list \<Rightarrow> edge_key \<times> edge" where
  "edge_of_item item = (fst item, \<lparr>edge_n1 = fst (fst item), edge_n2 = snd (fst item),
                           edge_trias = snd item\<rparr>)"

text \<open>The pairs (edge, triangle) in the order in which lines 54-56 visit them.\<close>

definition edge_pairs :: "(edge_key \<times> edge) list \<Rightarrow> (edge_key \<times> nat) list" where
  "edge_pairs edges = concat (map (\<lambda>(k, e). map (\<lambda>i. (k, i)) (edge_trias e)) edges)"

text \<open>A mesh that the four passes return, started on nodes and triangles without references.\<close>

definition built :: "mesh \<Rightarrow> bool" where
  "built m \<longleftrightarrow>
     (\<exists>nodes trias. edge_references nodes trias = Inr m \<and>
        (\<forall>n nd. nodes n = Some nd \<longrightarrow> node_trias nd = {} \<and> node_edges nd = {}) \<and>
        (\<forall>t \<in> set trias. tria_edges t = []))"

text \<open>
  The points that \<open>GRID\<close> accepts once line 96 has padded them. What \<open>getitem\<close>
  accepts, and the position it reads. A row of \<open>tri.simplices\<close> is
  valid when it unpacks into three indices that \<open>nodes\<close> accepts; \<open>tria_of_row\<close> is the
  triangle that lines 108-117 make of it.
\<close>

definition valid_point :: "real list \<Rightarrow> bool" where
  "valid_point pt \<longleftrightarrow> length pt = 2 \<or> length pt = 3"

definition valid_index :: "nat \<Rightarrow> int \<Rightarrow> bool" where
  "valid_index len i \<longleftrightarrow> - int len \<le> i \<and> i < int len"

definition position :: "nat \<Rightarrow> int \<Rightarrow> nat" where
  "position len i = (if 0 \<le> i then nat i else nat (int len + i))"

definition valid_row :: "nat \<Rightarrow> int list \<Rightarrow> bool" where
  "valid_row len row \<longleftrightarrow> length row = 3 \<and> (\<forall>i \<in> set row. valid_index len i)"

definition tria_of_row :: "node list \<Rightarrow> int \<Rightarrow> int list \<Rightarrow> tria" where
  "tria_of_row nodes e row =
     \<lparr>eid = e,
      node_ids = (nid (nodes ! position (length nodes) (row ! 0)),
                  nid (nodes ! position (length nodes) (row ! 1)),
                  nid (nodes ! position (length nodes) (row ! 2))),
      tria_edges = [], tria_prop = None\<rparr>"

text \<open>
  The nodes and the triangles that lines 91-119 hand to the four passes, in closed form.
\<close>

definition cloud_nodes :: "real list list \<Rightarrow> (int \<rightharpoonup> node)" where
  "cloud_nodes points =
     (\<lambda>k. if 0 < k \<and> k \<le> int (length points)
          then Some (grid_node k (pad_point (points ! nat (k - 1)))) else None)"

definition cloud_tria :: "nat \<Rightarrow> int list \<Rightarrow> nat \<Rightarrow> tria" where
  "cloud_tria len row j =
     \<lparr>eid = int j + 1,
      node_ids = (int (position len (row ! 0)) + 1, int (position len (row ! 1)) + 1,
                  int (position len (row ! 2)) + 1),
      tria_edges = [], tria_prop = None\<rparr>"

definition cloud_trias :: "nat \<Rightarrow> int list list \<Rightarrow> tria list" where
  "cloud_trias len simplices = map (\<lambda>j. cloud_tria len (simplices ! j) j) [0..<length simplices]"

section \<open>Example inputs\<close>

text \<open>A deck of four grid points, and \<open>CTRIA3\<close> cards over them.\<close>

definition four_grids :: "int \<rightharpoonup> node" where
  "four_grids = [1 \<mapsto> grid_node 1 [0, 0, 0], 2 \<mapsto> grid_node 2 [1, 0, 0], 3 \<mapsto> grid_node 3 [0, 1, 0],
                 4 \<mapsto> grid_node 4 [1, 1, 0]]"

definition ctria3 :: "int \<Rightarrow> int \<Rightarrow> int \<Rightarrow> int \<Rightarrow> element" where
  "ctria3 e a b c = CTRIA3 \<lparr>eid = e, node_ids = (a, b, c), tria_edges = [], tria_prop = None\<rparr>"

text \<open>Two triangles that share the edge between the nodes 2 and 3.\<close>

definition two_trias_deck :: bdf where
  "two_trias_deck = \<lparr>bdf_nodes = four_grids, bdf_elements = [ctria3 1 1 2 3, ctria3 2 2 4 3]\<rparr>"

text \<open>The same deck with a quadrilateral in between.\<close>

definition quad_deck :: bdf where
  "quad_deck = \<lparr>bdf_nodes = four_grids,
                 bdf_elements = [ctria3 1 1 2 3, OtherElement ''CQUAD4'', ctria3 2 2 4 3]\<rparr>"

text \<open>Three triangles around the edge between the nodes 1 and 2.\<close>

definition fan_deck :: bdf where
  "fan_deck = \<lparr>bdf_nodes = four_grids,
                bdf_elements = [ctria3 1 1 2 3, ctria3 2 2 1 4, ctria3 3 1 2 4]\<rparr>"

text \<open>The unit square as a point cloud, triangulated along the diagonal 1-2.\<close>

definition square_points :: "real list list" where
  "square_points = [[0, 0], [1, 0], [0, 1], [1, 1]]"

definition square_simplices :: "int list list" where
  "square_simplices = [[0, 1, 2], [1, 3, 2]]"

text \<open>Points of two and of three coordinates, with the same triangulation.\<close>

definition mixed_points :: "real list list" where
  "mixed_points = [[0, 0], [1, 0, 0], [0, 1], [1, 1, 5]]"

text \<open>Points of the lengths 2, 1, 3 and 4.\<close>

definition ragged_points :: "real list list" where
  "ragged_points = [[0, 0], [1], [0, 1, 5], [1, 1, 2, 3]]"

text \<open>The meshes that the two functions return on these inputs.\<close>

definition two_trias_mesh :: mesh where
  "two_trias_mesh = projr (read_mesh two_trias_deck)"

definition fan_mesh :: mesh where
  "fan_mesh = projr (read_mesh fan_deck)"

definition square_mesh :: mesh where
  "square_mesh = projr (read_delaunay square_points square_simplices)"

definition mixed_mesh :: mesh where
  "mixed_mesh = projr (read_delaunay mixed_points square_simplices)"

section \<open>The accumulation of \<open>edges_ids\<close>\<close>

lemma fold_dd_append_pairs:
  "fold (\<lambda>k. dd_append k i) ks d = group_by_key (map (\<lambda>k. (k, i)) ks) d"
  by (simp add: group_by_key_def fold_map comp_def)

lemma group_by_key_append:
  "group_by_key (ps @ qs) d = group_by_key qs (group_by_key ps d)"
  by (simp add: group_by_key_def)

lemma fold_nested_pairs:
  "fold (\<lambda>(i, t). fold (\<lambda>k. dd_append k i) (f t)) its d =
   group_by_key (concat (map (\<lambda>(i, t). map (\<lambda>k. (k, i)) (f t)) its)) d"
proof (induction its arbitrary: d)
  case Nil
  show ?case by (simp add: group_by_key_def)
next
  case (Cons a its)
  obtain i t where a: "a = (i, t)" by (cases a)
  have "fold (\<lambda>(i, t). fold (\<lambda>k. dd_append k i) (f t)) (a # its) d =
        fold (\<lambda>(i, t). fold (\<lambda>k. dd_append k i) (f t)) its (fold (\<lambda>k. dd_append k i) (f t) d)"
    by (simp add: a)
  also have "\<dots> = group_by_key (concat (map (\<lambda>(i, t). map (\<lambda>k. (k, i)) (f t)) its))
                      (fold (\<lambda>k. dd_append k i) (f t) d)"
    by (rule Cons.IH)
  also have "\<dots> = group_by_key (concat (map (\<lambda>(i, t). map (\<lambda>k. (k, i)) (f t)) its))
                      (group_by_key (map (\<lambda>k. (k, i)) (f t)) d)"
    by (simp only: fold_dd_append_pairs)
  finally show ?case
    by (simp add: a group_by_key_append)
qed

lemma accumulate_edges_ids_occurrences:
  "accumulate_edges_ids trias = group_by_key (occurrences trias) []"
  by (simp add: accumulate_edges_ids_def occurrences_def fold_nested_pairs)

lemma keys_dd_append:
  "map fst (dd_append k v d) = (if k \<in> fst ` set d then map fst d else map fst d @ [k])"
  by (induction k v d rule: dd_append.induct) (force simp: image_iff)+

lemma distinct_dd_append:
  "distinct (map fst d) \<Longrightarrow> distinct (map fst (dd_append k v d))"
  by (simp add: keys_dd_append)

lemma map_of_dd_append:
  "map_of (dd_append k v d) =
   (map_of d)(k \<mapsto> (case map_of d k of None \<Rightarrow> [] | Some vs \<Rightarrow> vs) @ [v])"
  by (induction d) (auto simp: fun_eq_iff)

lemma distinct_group_by_key:
  "distinct (map fst d) \<Longrightarrow> distinct (map fst (group_by_key ps d))"
  unfolding group_by_key_def
  by (induction ps arbitrary: d) (auto simp: distinct_dd_append)

lemma keys_group_by_key:
  "fst ` set (group_by_key ps d) = fst ` set d \<union> fst ` set ps"
  unfolding group_by_key_def
proof (induction ps arbitrary: d)
  case Nil
  show ?case by simp
next
  case (Cons p ps)
  obtain k v where p: "p = (k, v)" by (cases p)
  have "fst ` set (dd_append k v d) = insert k (fst ` set d)"
    using keys_dd_append [of k v d] by (metis (no_types, lifting) Un_insert_right append_Nil2 insert_absorb list.set(2) list.set_map set_append)
  then show ?case by (simp add: p Cons.IH)
qed

lemma map_of_group_by_key:
  "map_of (group_by_key ps d) k =
   (let vs = map snd (filter (\<lambda>p. fst p = k) ps)
    in if vs = [] then map_of d k
       else Some ((case map_of d k of None \<Rightarrow> [] | Some ws \<Rightarrow> ws) @ vs))"
  unfolding group_by_key_def
proof (induction ps arbitrary: d)
  case Nil
  show ?case by simp
next
  case (Cons p ps)
  obtain k' v where p: "p = (k', v)" by (cases p)
  show ?case
    by (simp add: p Cons.IH map_of_dd_append Let_def split: option.splits)
qed

lemma group_by_key_items:
  "(k, vs) \<in> set (group_by_key ps []) \<longleftrightarrow>
   k \<in> fst ` set ps \<and> vs = map snd (filter (\<lambda>p. fst p = k) ps)"
proof -
  have d: "distinct (map fst (group_by_key ps []))"
    by (rule distinct_group_by_key) simp
  have ne: "map snd (filter (\<lambda>p. fst p = k) ps) = [] \<longleftrightarrow> k \<notin> fst ` set ps"
    by (auto simp: filter_empty_conv image_iff)
  have "(k, vs) \<in> set (group_by_key ps []) \<longleftrightarrow> map_of (group_by_key ps []) k = Some vs"
    using d by simp
  also have "\<dots> \<longleftrightarrow> k \<in> fst ` set ps \<and> vs = map snd (filter (\<lambda>p. fst p = k) ps)"
    using ne by (auto simp: map_of_group_by_key Let_def)
  finally show ?thesis .
qed

section \<open>Creating the edges\<close>

lemma with_edges_empty [simp]: "with_edges {} nd = nd"
  by (simp add: with_edges_def)

lemma with_edges_twice [simp]: "with_edges S (with_edges T nd) = with_edges (T \<union> S) nd"
  by (simp add: with_edges_def Un_assoc)

lemma with_trias_empty [simp]: "with_trias {} nd = nd"
  by (simp add: with_trias_def)

lemma with_trias_twice [simp]: "with_trias S (with_trias T nd) = with_trias (T \<union> S) nd"
  by (simp add: with_trias_def Un_assoc)

lemma add_edge_apply:
  "add_edge n k nodes n' = map_option (with_edges (if n' = n then {k} else {})) (nodes n')"
  by (cases "nodes n'") (auto simp: add_edge_def with_edges_def split: option.splits)

lemma create_edges_nodes:
  "create_edges items (nodes, edges) = Inr (nodes', edges') \<Longrightarrow>
   nodes' n = map_option (with_edges {k \<in> fst ` set items. fst k = n \<or> snd k = n}) (nodes n)"
proof (induction items arbitrary: nodes edges)
  case Nil
  then show ?case by (cases "nodes n") auto
next
  case (Cons item items)
  obtain a b ts where item: "item = ((a, b), ts)" by (cases item) auto
  let ?nodes1 = "add_edge b (a, b) (add_edge a (a, b) nodes)"
  let ?edges1 = "AList.update (a, b) \<lparr>edge_n1 = a, edge_n2 = b, edge_trias = ts\<rparr> edges"
  from Cons.prems have run: "create_edges items (?nodes1, ?edges1) = Inr (nodes', edges')"
    by (simp add: item split: if_splits)
  have step: "?nodes1 n = map_option (with_edges (if n = a \<or> n = b then {(a, b)} else {})) (nodes n)"
    by (cases "nodes n") (auto simp: add_edge_apply)
  have sets: "(if n = a \<or> n = b then {(a, b)} else {}) \<union>
              {k \<in> fst ` set items. fst k = n \<or> snd k = n} =
              {k \<in> fst ` set (item # items). fst k = n \<or> snd k = n}"
    by (auto simp: item)
  have "nodes' n = map_option (with_edges {k \<in> fst ` set items. fst k = n \<or> snd k = n}) (?nodes1 n)"
    by (rule Cons.IH [OF run])
  also have "\<dots> = map_option (with_edges {k \<in> fst ` set (item # items). fst k = n \<or> snd k = n}) (nodes n)"
    unfolding step sets [symmetric] by (cases "nodes n") simp_all
  finally show ?case .
qed

lemma update_fresh_key: "k \<notin> fst ` set al \<Longrightarrow> AList.update k v al = al @ [(k, v)]"
  by (induction al) auto

lemma create_edges_edges:
  "create_edges items (nodes, edges) = Inr (nodes', edges') \<Longrightarrow>
   distinct (map fst items) \<Longrightarrow> fst ` set items \<inter> fst ` set edges = {} \<Longrightarrow>
   edges' = edges @ map edge_of_item items"
proof (induction items arbitrary: nodes edges)
  case Nil
  then show ?case by simp
next
  case (Cons item items)
  obtain a b ts where item: "item = ((a, b), ts)" by (cases item) auto
  let ?nodes1 = "add_edge b (a, b) (add_edge a (a, b) nodes)"
  let ?edges1 = "AList.update (a, b) \<lparr>edge_n1 = a, edge_n2 = b, edge_trias = ts\<rparr> edges"
  from Cons.prems(1) have run: "create_edges items (?nodes1, ?edges1) = Inr (nodes', edges')"
    by (simp add: item split: if_splits)
  from Cons.prems(3) have fresh: "(a, b) \<notin> fst ` set edges"
    by (auto simp: item)
  then have e1: "?edges1 = edges @ [edge_of_item item]"
    by (simp add: update_fresh_key edge_of_item_def item)
  have d: "distinct (map fst items)" using Cons.prems(2) by simp
  have disj: "fst ` set items \<inter> fst ` set ?edges1 = {}"
    using Cons.prems(2,3) unfolding e1 by (auto simp: item edge_of_item_def)
  show ?case
    using Cons.IH [OF run d disj] unfolding e1 by simp
qed

lemma create_edges_error:
  "create_edges items s = Inl e \<Longrightarrow> \<exists>n. e = KeyError n"
proof (induction items s rule: create_edges.induct)
  case (1 s)
  then show ?case by simp
next
  case (2 a b e_trias items nodes edges)
  then show ?case by (auto split: if_splits)
qed

lemma add_edge_None: "add_edge n k nodes n' = None \<longleftrightarrow> nodes n' = None"
  by (simp add: add_edge_apply)

lemma create_edges_succeeds:
  "(\<exists>r. create_edges items (nodes, edges) = Inr r) \<longleftrightarrow>
   (\<forall>k \<in> fst ` set items. nodes (fst k) \<noteq> None \<and> nodes (snd k) \<noteq> None)"
proof (induction items arbitrary: nodes edges)
  case Nil
  show ?case by simp
next
  case (Cons item items)
  obtain a b ts where item: "item = ((a, b), ts)" by (cases item) auto
  let ?nodes1 = "add_edge b (a, b) (add_edge a (a, b) nodes)"
  let ?edges1 = "AList.update (a, b) \<lparr>edge_n1 = a, edge_n2 = b, edge_trias = ts\<rparr> edges"
  have rest: "(\<exists>r. create_edges items (?nodes1, ?edges1) = Inr r) \<longleftrightarrow>
              (\<forall>k \<in> fst ` set items. nodes (fst k) \<noteq> None \<and> nodes (snd k) \<noteq> None)"
    unfolding Cons.IH by (simp only: add_edge_None)
  show ?case
  proof (cases "nodes a = None \<or> nodes b = None")
    case True
    then show ?thesis by (auto simp: item)
  next
    case False
    then have "create_edges (item # items) (nodes, edges) = create_edges items (?nodes1, ?edges1)"
      by (auto simp: item)
    then show ?thesis
      using False rest by (auto simp: item)
  qed
qed

section \<open>Attaching the edges to the triangles\<close>

lemma fold_nested_append_edge:
  "fold (\<lambda>(k, e). fold (append_edge k) (edge_trias e)) edges trias =
   fold (\<lambda>(k, i). append_edge k i) (edge_pairs edges) trias"
proof (induction edges arbitrary: trias)
  case Nil
  show ?case by (simp add: edge_pairs_def)
next
  case (Cons a edges)
  obtain k e where a: "a = (k, e)" by (cases a)
  have inner: "fold (append_edge k) (edge_trias e) trias =
               fold (\<lambda>(k, i). append_edge k i) (map (\<lambda>i. (k, i)) (edge_trias e)) trias"
    by (simp add: fold_map comp_def)
  have split: "edge_pairs (a # edges) = map (\<lambda>i. (k, i)) (edge_trias e) @ edge_pairs edges"
    by (simp add: edge_pairs_def a)
  show ?case
    unfolding split fold_append comp_def inner [symmetric]
    by (simp add: a Cons.IH)
qed

lemma length_fold_append_edge:
  "length (fold (\<lambda>(k, i). append_edge k i) Q trias) = length trias"
  by (induction Q arbitrary: trias) (auto simp: append_edge_def)

lemma nth_fold_append_edge:
  "i < length trias \<Longrightarrow>
   fold (\<lambda>(k, j). append_edge k j) Q trias ! i =
   (trias ! i)\<lparr>tria_edges := tria_edges (trias ! i) @ map fst (filter (\<lambda>p. snd p = i) Q)\<rparr>"
proof (induction Q arbitrary: trias)
  case Nil
  show ?case by simp
next
  case (Cons q Q)
  obtain k j where q: "q = (k, j)" by (cases q)
  have len: "i < length (append_edge k j trias)"
    using Cons.prems by (simp add: append_edge_def)
  have step: "append_edge k j trias ! i =
              (trias ! i)\<lparr>tria_edges := tria_edges (trias ! i) @ (if j = i then [k] else [])\<rparr>"
    using Cons.prems by (simp add: append_edge_def nth_list_update)
  show ?case
    using Cons.IH [OF len] by (simp add: q step)
qed

lemma attach_edges_length: "length (attach_edges edges trias) = length trias"
  by (simp add: attach_edges_def fold_nested_append_edge length_fold_append_edge)

lemma attach_edges_nth:
  "i < length trias \<Longrightarrow>
   attach_edges edges trias ! i =
   (trias ! i)\<lparr>tria_edges := tria_edges (trias ! i) @
                               map fst (filter (\<lambda>p. snd p = i) (edge_pairs edges))\<rparr>"
  by (simp add: attach_edges_def fold_nested_append_edge nth_fold_append_edge)

section \<open>Attaching the triangles to the nodes\<close>

lemma add_tria_nodes:
  "add_tria e ns nodes = Inr nodes' \<Longrightarrow>
   nodes' n = map_option (with_trias (if n \<in> set ns then {e} else {})) (nodes n)"
proof (induction ns arbitrary: nodes)
  case Nil
  then show ?case by (cases "nodes n") auto
next
  case (Cons a ns)
  from Cons.prems obtain nd where nd: "nodes a = Some nd"
    and run: "add_tria e ns (nodes(a \<mapsto> nd\<lparr>node_trias := insert e (node_trias nd)\<rparr>)) = Inr nodes'"
    by (auto split: option.splits)
  show ?case
    unfolding Cons.IH [OF run]
    by (cases "nodes n") (auto simp: nd with_trias_def)
qed

lemma add_tria_error: "add_tria e ns nodes = Inl err \<Longrightarrow> \<exists>n. err = KeyError n"
  by (induction ns arbitrary: nodes) (auto split: option.splits)

lemma add_tria_succeeds:
  "(\<exists>r. add_tria e ns nodes = Inr r) \<longleftrightarrow> (\<forall>n \<in> set ns. nodes n \<noteq> None)"
  by (induction ns arbitrary: nodes) (auto split: option.splits)

lemma attach_trias_nodes:
  "attach_trias ts nodes = Inr nodes' \<Longrightarrow>
   nodes' n = map_option (with_trias {eid t |t. t \<in> set ts \<and> n \<in> set (node_id_list t)}) (nodes n)"
proof (induction ts arbitrary: nodes)
  case Nil
  then show ?case by (cases "nodes n") auto
next
  case (Cons t ts)
  from Cons.prems obtain nodes1 where one: "add_tria (eid t) (node_id_list t) nodes = Inr nodes1"
    and run: "attach_trias ts nodes1 = Inr nodes'"
    by (auto split: sum.splits)
  have sets: "(if n \<in> set (node_id_list t) then {eid t} else {}) \<union>
              {eid t' |t'. t' \<in> set ts \<and> n \<in> set (node_id_list t')} =
              {eid t' |t'. t' \<in> set (t # ts) \<and> n \<in> set (node_id_list t')}"
    by auto
  show ?case
    unfolding Cons.IH [OF run] add_tria_nodes [OF one] sets [symmetric]
    by (cases "nodes n") simp_all
qed

lemma attach_trias_error: "attach_trias ts nodes = Inl err \<Longrightarrow> \<exists>n. err = KeyError n"
  by (induction ts arbitrary: nodes) (auto split: sum.splits dest: add_tria_error)

lemma attach_trias_succeeds:
  "(\<exists>r. attach_trias ts nodes = Inr r) \<longleftrightarrow>
   (\<forall>t \<in> set ts. \<forall>n \<in> set (node_id_list t). nodes n \<noteq> None)"
proof (induction ts arbitrary: nodes)
  case Nil
  show ?case by simp
next
  case (Cons t ts)
  show ?case
  proof (cases "add_tria (eid t) (node_id_list t) nodes")
    case (Inl err)
    then have "\<not> (\<forall>n \<in> set (node_id_list t). nodes n \<noteq> None)"
      using add_tria_succeeds [of "eid t" "node_id_list t" nodes] by auto
    then show ?thesis using Inl by auto
  next
    case (Inr nodes1)
    then have all: "\<forall>n \<in> set (node_id_list t). nodes n \<noteq> None"
      using add_tria_succeeds [of "eid t" "node_id_list t" nodes] by auto
    have same: "\<And>n. nodes1 n = None \<longleftrightarrow> nodes n = None"
      by (simp add: add_tria_nodes [OF Inr])
    show ?thesis
      using all by (simp add: Inr Cons.IH same)
  qed
qed

section \<open>The edge keys of a triangle\<close>

lemma get_edge_ids_tria_edges [simp]: "get_edge_ids (t\<lparr>tria_edges := es\<rparr>) = get_edge_ids t"
  by (simp add: get_edge_ids_def)

lemma node_id_list_tria_edges [simp]: "node_id_list (t\<lparr>tria_edges := es\<rparr>) = node_id_list t"
  by (simp add: node_id_list_def)

lemma keys_node_ids: "(\<Union>k \<in> set (get_edge_ids t). {fst k, snd k}) = set (node_id_list t)"
  by (cases "node_ids t") (auto simp: get_edge_ids_def node_id_list_def sorted_pair_def)

lemma keys_sorted: "k \<in> set (get_edge_ids t) \<Longrightarrow> fst k \<le> snd k"
  by (cases "node_ids t") (auto simp: get_edge_ids_def sorted_pair_def)

lemma length_get_edge_ids [simp]: "length (get_edge_ids t) = 3"
  by (cases "node_ids t") (simp add: get_edge_ids_def)

lemma distinct_get_edge_ids:
  "distinct (node_id_list t) \<Longrightarrow> distinct (get_edge_ids t)"
  by (cases "node_ids t") (auto simp: node_id_list_def get_edge_ids_def sorted_pair_def)

lemma set_occurrences_enumerate:
  "set (concat (map (\<lambda>(i, t). map (\<lambda>k. (k, i)) (f t)) (enumerate n ts))) =
   {(k, i). n \<le> i \<and> i < n + length ts \<and> k \<in> set (f (ts ! (i - n)))}"
proof (induction ts arbitrary: n)
  case Nil
  show ?case by simp
next
  case (Cons t ts)
  have "\<And>k i. Suc n \<le> i \<Longrightarrow> (t # ts) ! (i - n) = ts ! (i - Suc n)"
    by (simp add: nth_Cons')
  moreover have "\<And>i. n \<le> i \<Longrightarrow> i \<noteq> n \<Longrightarrow> Suc n \<le> i" by simp
  ultimately show ?case
    unfolding enumerate_simps list.map concat.simps set_append Cons.IH
    by (auto simp: nth_Cons' split: if_splits)
qed

lemma set_occurrences:
  "(k, i) \<in> set (occurrences trias) \<longleftrightarrow> i < length trias \<and> k \<in> set (get_edge_ids (trias ! i))"
  unfolding occurrences_def set_occurrences_enumerate by simp

lemma keys_occurrences: "fst ` set (occurrences trias) = (\<Union>t \<in> set trias. set (get_edge_ids t))"
proof -
  have "fst ` set (occurrences trias) =
        {k. \<exists>i. i < length trias \<and> k \<in> set (get_edge_ids (trias ! i))}"
  proof (intro set_eqI iffI)
    fix k assume "k \<in> fst ` set (occurrences trias)"
    then obtain i where "(k, i) \<in> set (occurrences trias)" by force
    then show "k \<in> {k. \<exists>i. i < length trias \<and> k \<in> set (get_edge_ids (trias ! i))}"
      by (auto simp: set_occurrences)
  next
    fix k assume "k \<in> {k. \<exists>i. i < length trias \<and> k \<in> set (get_edge_ids (trias ! i))}"
    then obtain i where "(k, i) \<in> set (occurrences trias)"
      by (auto simp: set_occurrences)
    then show "k \<in> fst ` set (occurrences trias)" by force
  qed
  also have "\<dots> = (\<Union>t \<in> set trias. set (get_edge_ids t))"
    unfolding set_conv_nth [of trias] by blast
  finally show ?thesis .
qed

lemma keys_accumulate_edges_ids:
  "fst ` set (accumulate_edges_ids trias) = (\<Union>t \<in> set trias. set (get_edge_ids t))"
  by (simp add: accumulate_edges_ids_occurrences keys_group_by_key keys_occurrences)

lemma distinct_accumulate_edges_ids: "distinct (map fst (accumulate_edges_ids trias))"
  by (simp add: accumulate_edges_ids_occurrences distinct_group_by_key)

lemma key_ends_present:
  "(\<forall>k \<in> fst ` set (accumulate_edges_ids trias). nodes (fst k) \<noteq> None \<and> nodes (snd k) \<noteq> None) \<longleftrightarrow>
   (\<forall>t \<in> set trias. \<forall>n \<in> set (node_id_list t). nodes n \<noteq> None)"
proof -
  have "(\<forall>k \<in> fst ` set (accumulate_edges_ids trias). nodes (fst k) \<noteq> None \<and> nodes (snd k) \<noteq> None) \<longleftrightarrow>
        (\<forall>t \<in> set trias. \<forall>n \<in> (\<Union>k \<in> set (get_edge_ids t). {fst k, snd k}). nodes n \<noteq> None)"
    unfolding keys_accumulate_edges_ids by blast
  then show ?thesis by (simp only: keys_node_ids)
qed

section \<open>The four passes together\<close>

lemma attach_edges_same_ids:
  "t \<in> set (attach_edges edges trias) \<Longrightarrow>
   \<exists>t0 \<in> set trias. node_id_list t = node_id_list t0 \<and> eid t = eid t0"
proof -
  assume "t \<in> set (attach_edges edges trias)"
  then obtain i where i: "i < length trias" and t: "t = attach_edges edges trias ! i"
    by (auto simp: in_set_conv_nth attach_edges_length)
  have "node_id_list t = node_id_list (trias ! i) \<and> eid t = eid (trias ! i)"
    by (simp add: t attach_edges_nth [OF i])
  with i show ?thesis by auto
qed

lemma edge_references_error:
  "edge_references nodes trias = Inl e \<Longrightarrow> \<exists>n. e = KeyError n"
  unfolding edge_references_def
  by (auto simp: Let_def split: sum.splits prod.splits
      dest: create_edges_error attach_trias_error)

lemma edge_references_succeeds:
  "(\<exists>m. edge_references nodes trias = Inr m) \<longleftrightarrow>
   (\<forall>t \<in> set trias. \<forall>n \<in> set (node_id_list t). nodes n \<noteq> None)"
proof (cases "create_edges (accumulate_edges_ids trias) (nodes, [])")
  case (Inl e)
  then have "\<not> (\<forall>t \<in> set trias. \<forall>n \<in> set (node_id_list t). nodes n \<noteq> None)"
    using create_edges_succeeds [of "accumulate_edges_ids trias" nodes "[]"]
    unfolding key_ends_present by simp
  then show ?thesis by (simp add: edge_references_def Inl)
next
  case (Inr r)
  obtain nodes1 edges where r: "r = (nodes1, edges)" by (cases r)
  have present: "\<forall>t \<in> set trias. \<forall>n \<in> set (node_id_list t). nodes n \<noteq> None"
    using create_edges_succeeds [of "accumulate_edges_ids trias" nodes "[]"] Inr
    unfolding key_ends_present by simp
  have same: "\<And>n. nodes1 n = None \<longleftrightarrow> nodes n = None"
    using create_edges_nodes [OF Inr [unfolded r]] by simp
  have "\<forall>t \<in> set (attach_edges edges trias). \<forall>n \<in> set (node_id_list t). nodes1 n \<noteq> None"
    using present attach_edges_same_ids [of _ edges trias] unfolding same by metis
  then obtain nodes2 where "attach_trias (attach_edges edges trias) nodes1 = Inr nodes2"
    using attach_trias_succeeds [of "attach_edges edges trias" nodes1] by auto
  then show ?thesis
    using present by (simp add: edge_references_def Inr r Let_def)
qed

lemma edge_references_result:
  assumes "edge_references nodes trias = Inr m"
  shows "mesh_edges m = map edge_of_item (accumulate_edges_ids trias)"
    and "length (mesh_elements m) = length trias"
    and "\<And>i. i < length trias \<Longrightarrow>
           mesh_elements m ! i =
           (trias ! i)\<lparr>tria_edges := tria_edges (trias ! i) @
              map fst (filter (\<lambda>p. snd p = i) (edge_pairs (mesh_edges m)))\<rparr>"
    and "\<And>n. mesh_nodes m n =
           map_option
             (with_trias {eid t |t. t \<in> set (mesh_elements m) \<and> n \<in> set (node_id_list t)} \<circ>
              with_edges {k \<in> fst ` set (mesh_edges m). fst k = n \<or> snd k = n})
             (nodes n)"
proof -
  from assms obtain nodes1 edges nodes2
    where ce: "create_edges (accumulate_edges_ids trias) (nodes, []) = Inr (nodes1, edges)"
      and at: "attach_trias (attach_edges edges trias) nodes1 = Inr nodes2"
      and m: "m = \<lparr>mesh_nodes = nodes2, mesh_elements = attach_edges edges trias,
                   mesh_edges = edges\<rparr>"
    by (auto simp: edge_references_def Let_def split: sum.splits prod.splits)
  have edges: "edges = map edge_of_item (accumulate_edges_ids trias)"
    using create_edges_edges [OF ce distinct_accumulate_edges_ids] by simp
  show "mesh_edges m = map edge_of_item (accumulate_edges_ids trias)"
    by (simp add: m edges)
  show "length (mesh_elements m) = length trias"
    by (simp add: m attach_edges_length)
  show "mesh_elements m ! i =
        (trias ! i)\<lparr>tria_edges := tria_edges (trias ! i) @
           map fst (filter (\<lambda>p. snd p = i) (edge_pairs (mesh_edges m)))\<rparr>"
    if "i < length trias" for i
    using that by (simp add: m attach_edges_nth)
  have keys: "fst ` set edges = fst ` set (accumulate_edges_ids trias)"
    by (simp add: edges image_image edge_of_item_def)
  show "mesh_nodes m n =
        map_option
          (with_trias {eid t |t. t \<in> set (mesh_elements m) \<and> n \<in> set (node_id_list t)} \<circ>
           with_edges {k \<in> fst ` set (mesh_edges m). fst k = n \<or> snd k = n})
          (nodes n)" for n
    by (simp add: m attach_trias_nodes [OF at] create_edges_nodes [OF ce] keys
        option.map_comp)
qed

section \<open>Ingestion from parsed elements\<close>

lemma collect_trias_all:
  "\<forall>e \<in> set elems. is_CTRIA3 e \<Longrightarrow>
   collect_trias elems acc = Inr (acc @ map (init_tria \<circ> the_tria) elems)"
proof (induction elems arbitrary: acc)
  case Nil
  show ?case by simp
next
  case (Cons e elems)
  then show ?case by (cases e) simp_all
qed

lemma collect_trias_other:
  "e \<in> set elems \<Longrightarrow> \<not> is_CTRIA3 e \<Longrightarrow>
   \<exists>ty. collect_trias elems acc = Inl (NotImplementedError ty)"
proof (induction elems arbitrary: acc)
  case Nil
  then show ?case by simp
next
  case (Cons x elems)
  then show ?case by (cases x) auto
qed

lemma collect_trias_Inr:
  "collect_trias elems [] = Inr trias \<Longrightarrow>
   (\<forall>e \<in> set elems. is_CTRIA3 e) \<and> trias = map (init_tria \<circ> the_tria) elems"
proof -
  assume run: "collect_trias elems [] = Inr trias"
  have all: "\<forall>e \<in> set elems. is_CTRIA3 e"
  proof (rule ccontr)
    assume "\<not> (\<forall>e \<in> set elems. is_CTRIA3 e)"
    then obtain e where "e \<in> set elems" "\<not> is_CTRIA3 e" by auto
    from collect_trias_other [OF this, of "[]"] run show False by auto
  qed
  with run collect_trias_all [OF all, of "[]"] show ?thesis by simp
qed

lemma read_mesh_Inr:
  "read_mesh deck = Inr m \<Longrightarrow>
   (\<forall>e \<in> set (bdf_elements deck). is_CTRIA3 e) \<and>
   edge_references (\<lambda>n. map_option init_node (bdf_nodes deck n))
     (map (init_tria \<circ> the_tria) (bdf_elements deck)) = Inr m"
  by (auto simp: read_mesh_def Let_def split: sum.splits dest!: collect_trias_Inr)

lemma read_mesh_built: "read_mesh deck = Inr m \<Longrightarrow> built m"
  unfolding built_def
  by (rule exI, rule exI, rule conjI, erule read_mesh_Inr [THEN conjunct2])
     (auto simp: init_node_def init_tria_def)

lemma read_mesh_succeeds:
  "(\<exists>m. read_mesh deck = Inr m) \<longleftrightarrow>
   (\<forall>e \<in> set (bdf_elements deck). is_CTRIA3 e \<and>
      (\<forall>n \<in> set (node_id_list (the_tria e)). bdf_nodes deck n \<noteq> None))"
proof (cases "\<forall>e \<in> set (bdf_elements deck). is_CTRIA3 e")
  case False
  then show ?thesis using read_mesh_Inr [of deck] by blast
next
  case True
  have "read_mesh deck =
        edge_references (\<lambda>n. map_option init_node (bdf_nodes deck n))
          (map (init_tria \<circ> the_tria) (bdf_elements deck))"
    by (simp add: read_mesh_def collect_trias_all [OF True])
  then show ?thesis
    using True by (simp add: edge_references_succeeds init_tria_def node_id_list_def)
qed

section \<open>Triangles per edge and edges per triangle\<close>

lemma map_enumerate_upt: "map h (enumerate 0 ts) = map (\<lambda>i. h (i, ts ! i)) [0..<length ts]"
  by (rule nth_equalityI) (simp_all add: nth_enumerate_eq)

lemma occurrences_upt:
  "occurrences ts = concat (map (\<lambda>i. map (\<lambda>k. (k, i)) (get_edge_ids (ts ! i))) [0..<length ts])"
  by (simp add: occurrences_def map_enumerate_upt)

lemma occurrences_cong:
  assumes "length ts = length ts'"
    and "\<And>i. i < length ts \<Longrightarrow> get_edge_ids (ts ! i) = get_edge_ids (ts' ! i)"
  shows "occurrences ts = occurrences ts'"
proof -
  have "map (\<lambda>i. map (\<lambda>k. (k, i)) (get_edge_ids (ts ! i))) [0..<length ts] =
        map (\<lambda>i. map (\<lambda>k. (k, i)) (get_edge_ids (ts' ! i))) [0..<length ts]"
    by (rule map_cong [OF refl]) (simp add: assms(2))
  then show ?thesis
    by (simp only: occurrences_upt assms(1))
qed

lemma keys_of_one:
  "map fst (filter (\<lambda>p. snd p = i) (concat (map (\<lambda>j. map (\<lambda>k. (k, j)) (f j)) js))) =
   concat (map (\<lambda>j. if j = i then f j else []) js)"
  by (induction js) (simp_all add: comp_def)

lemma concat_single_upt:
  "concat (map (\<lambda>j. if j = i then f j else []) [0..<n]) = (if i < n then f i else [])"
  by (induction n) auto

lemma keys_of_tria:
  "i < length ts \<Longrightarrow>
   map fst (filter (\<lambda>p. snd p = i) (occurrences ts)) = get_edge_ids (ts ! i)"
  by (simp add: occurrences_upt keys_of_one concat_single_upt)

lemma trias_of_one:
  "map snd (filter (\<lambda>p. fst p = k) (map (\<lambda>k'. (k', j)) xs)) = replicate (count_list xs k) j"
  by (induction xs) simp_all

lemma trias_of_key:
  "map snd (filter (\<lambda>p. fst p = k) (occurrences ts)) =
   concat (map (\<lambda>i. replicate (count_list (get_edge_ids (ts ! i)) k) i) [0..<length ts])"
proof -
  have "map snd (filter (\<lambda>p. fst p = k) (concat (map (\<lambda>j. map (\<lambda>k. (k, j)) (f j)) js))) =
        concat (map (\<lambda>j. replicate (count_list (f j) k) j) js)" for f :: "nat \<Rightarrow> edge_key list" and js
    by (induction js) (simp_all add: trias_of_one)
  then show ?thesis by (simp add: occurrences_upt)
qed

lemma edge_pairs_Edge:
  "edge_pairs (map edge_of_item items) = concat (map (\<lambda>item. map (\<lambda>i. (fst item, i)) (snd item)) items)"
  by (simp add: edge_pairs_def edge_of_item_def comp_def case_prod_beta)

lemma pairs_of_key: "map (\<lambda>i. (k, i)) (map snd (filter (\<lambda>p. fst p = k) P)) = filter (\<lambda>p. fst p = k) P"
  by (induction P) auto

lemma edge_pairs_grouped:
  "edge_pairs (map edge_of_item (group_by_key P [])) =
   concat (map (\<lambda>k. filter (\<lambda>p. fst p = k) P) (map fst (group_by_key P [])))"
proof -
  have "map (\<lambda>item. map (\<lambda>i. (fst item, i)) (snd item)) (group_by_key P []) =
        map (\<lambda>item. filter (\<lambda>p. fst p = fst item) P) (group_by_key P [])"
  proof (rule map_cong [OF refl])
    fix item assume "item \<in> set (group_by_key P [])"
    then have "snd item = map snd (filter (\<lambda>p. fst p = fst item) P)"
      using group_by_key_items [of "fst item" "snd item" P] by simp
    then show "map (\<lambda>i. (fst item, i)) (snd item) = filter (\<lambda>p. fst p = fst item) P"
      by (simp only: pairs_of_key)
  qed
  moreover have "concat (map (\<lambda>k. filter (\<lambda>p. fst p = k) P) (map fst (group_by_key P []))) =
                 concat (map (\<lambda>item. filter (\<lambda>p. fst p = fst item) P) (group_by_key P []))"
    by (simp add: comp_def)
  ultimately show ?thesis
    by (simp only: edge_pairs_Edge)
qed

lemma keys_of_tria_in_group:
  "map fst (filter (\<lambda>p. snd p = i) (filter (\<lambda>p. fst p = k) P)) =
   replicate (count_list (map fst (filter (\<lambda>p. snd p = i) P)) k) k"
  by (induction P) auto

lemma keys_of_tria_grouped:
  "map fst (filter (\<lambda>p. snd p = i) (concat (map (\<lambda>k. filter (\<lambda>p. fst p = k) P) ks))) =
   concat (map (\<lambda>k. replicate (count_list (map fst (filter (\<lambda>p. snd p = i) P)) k) k) ks)"
  by (induction ks) (simp_all add: keys_of_tria_in_group del: filter_filter)

lemma count_list_replicate: "count_list (replicate n y) x = (if x = y then n else 0)"
  by (induction n) auto

lemma count_concat_replicate:
  "distinct ks \<Longrightarrow>
   count_list (concat (map (\<lambda>k. replicate (c k) k) ks)) x = (if x \<in> set ks then c x else 0)"
  by (induction ks) (auto simp: count_list_replicate)

lemma mset_concat_replicate:
  assumes "distinct ks" and "set xs \<subseteq> set ks"
  shows "mset (concat (map (\<lambda>k. replicate (count_list xs k) k) ks)) = mset xs"
proof (rule multiset_eqI)
  fix x
  have "count_list (concat (map (\<lambda>k. replicate (count_list xs k) k) ks)) x = count_list xs x"
  proof (cases "x \<in> set ks")
    case True
    then show ?thesis by (simp only: count_concat_replicate [OF assms(1)] if_True)
  next
    case False
    then have "x \<notin> set xs" using assms(2) by auto
    then have "count_list xs x = 0" by simp
    then show ?thesis using False by (simp only: count_concat_replicate [OF assms(1)] if_False)
  qed
  then show "count (mset (concat (map (\<lambda>k. replicate (count_list xs k) k) ks))) x = count (mset xs) x"
    by (simp only: count_mset)
qed

lemma count_list_distinct: "distinct xs \<Longrightarrow> count_list xs x = (if x \<in> set xs then 1 else 0)"
  by (induction xs) auto

lemma sorted_concat_replicate: "sorted (concat (map (\<lambda>i. replicate (c i) i) [0..<n]))"
proof (induction n)
  case 0
  show ?case by simp
next
  case (Suc n)
  have "\<forall>x \<in> set (concat (map (\<lambda>i. replicate (c i) i) [0..<n])). x < n"
    by auto
  then show ?case
    using Suc.IH by (auto simp: sorted_append less_imp_le)
qed

lemma length_filter_keys:
  assumes "distinct (map fst xs)" and "S \<subseteq> fst ` set xs"
  shows "length (filter (\<lambda>p. fst p \<in> S) xs) = card S"
proof -
  have "length (filter (\<lambda>p. fst p \<in> S) xs) = length (filter (\<lambda>k. k \<in> S) (map fst xs))"
    by (simp only: filter_map length_map comp_def)
  also have "\<dots> = card (set (filter (\<lambda>k. k \<in> S) (map fst xs)))"
    by (rule distinct_card [symmetric]) (rule distinct_filter [OF assms(1)])
  also have "set (filter (\<lambda>k. k \<in> S) (map fst xs)) = S"
    using assms(2) by auto
  finally show ?thesis .
qed

lemma built_facts:
  assumes "built m"
  shows "mesh_edges m = map edge_of_item (accumulate_edges_ids (mesh_elements m))"
    and "\<And>i. i < length (mesh_elements m) \<Longrightarrow>
           tria_edges (mesh_elements m ! i) =
           map fst (filter (\<lambda>p. snd p = i) (edge_pairs (mesh_edges m)))"
    and "\<And>n nd. mesh_nodes m n = Some nd \<Longrightarrow>
           node_trias nd = {eid t |t. t \<in> set (mesh_elements m) \<and> n \<in> set (node_id_list t)} \<and>
           node_edges nd = {k \<in> fst ` set (mesh_edges m). fst k = n \<or> snd k = n}"
    and "\<And>t n. t \<in> set (mesh_elements m) \<Longrightarrow> n \<in> set (node_id_list t) \<Longrightarrow>
           mesh_nodes m n \<noteq> None"
proof -
  from assms obtain nodes trias where run: "edge_references nodes trias = Inr m"
    and nodes: "\<And>n nd. nodes n = Some nd \<Longrightarrow> node_trias nd = {} \<and> node_edges nd = {}"
    and trias: "\<And>t. t \<in> set trias \<Longrightarrow> tria_edges t = []"
    unfolding built_def by blast
  note res = edge_references_result [OF run]
  have len: "length (mesh_elements m) = length trias" by (rule res(2))
  have same: "get_edge_ids (mesh_elements m ! i) = get_edge_ids (trias ! i)"
    "node_id_list (mesh_elements m ! i) = node_id_list (trias ! i)"
    if "i < length trias" for i
    by (simp_all add: res(3) [OF that])
  have "occurrences (mesh_elements m) = occurrences trias"
    by (rule occurrences_cong) (simp_all add: len same)
  then have acc: "accumulate_edges_ids (mesh_elements m) = accumulate_edges_ids trias"
    by (simp add: accumulate_edges_ids_occurrences)
  show "mesh_edges m = map edge_of_item (accumulate_edges_ids (mesh_elements m))"
    by (simp add: acc res(1))
  show "tria_edges (mesh_elements m ! i) =
        map fst (filter (\<lambda>p. snd p = i) (edge_pairs (mesh_edges m)))"
    if "i < length (mesh_elements m)" for i
  proof -
    from that have i: "i < length trias" by (simp add: len)
    then have "tria_edges (trias ! i) = []" by (simp add: trias)
    then show ?thesis by (simp add: res(3) [OF i])
  qed
  show "node_trias nd = {eid t |t. t \<in> set (mesh_elements m) \<and> n \<in> set (node_id_list t)} \<and>
        node_edges nd = {k \<in> fst ` set (mesh_edges m). fst k = n \<or> snd k = n}"
    if "mesh_nodes m n = Some nd" for n nd
  proof -
    from that obtain nd0 where nd0: "nodes n = Some nd0"
      and nd: "nd = with_trias {eid t |t. t \<in> set (mesh_elements m) \<and> n \<in> set (node_id_list t)}
                      (with_edges {k \<in> fst ` set (mesh_edges m). fst k = n \<or> snd k = n} nd0)"
      unfolding res(4) [of n] by auto
    from nodes [OF nd0] show ?thesis
      by (simp add: nd with_trias_def with_edges_def)
  qed
  show "mesh_nodes m n \<noteq> None"
    if "t \<in> set (mesh_elements m)" and "n \<in> set (node_id_list t)" for t n
  proof -
    from that(1) obtain i where i: "i < length trias" and t: "t = mesh_elements m ! i"
      by (auto simp: in_set_conv_nth len)
    have "n \<in> set (node_id_list (trias ! i))"
      using that(2) by (simp add: t same(2) [OF i])
    moreover have "trias ! i \<in> set trias" using i by simp
    ultimately have "nodes n \<noteq> None"
      using edge_references_succeeds [of nodes trias] run by blast
    then show ?thesis
      unfolding res(4) [of n] by simp
  qed
qed

section \<open>Ingestion from a point cloud\<close>

lemma getitem_eq:
  "getitem xs i =
   (if valid_index (length xs) i then Inr (xs ! position (length xs) i) else Inl IndexError)"
  by (auto simp: getitem_def valid_index_def position_def)

lemma position_less: "valid_index len i \<Longrightarrow> position len i < len"
  by (auto simp: valid_index_def position_def)

lemma GRID_pad_point:
  "GRID n (pad_point pt) =
   (if valid_point pt then Inr (grid_node n (pad_point pt)) else Inl AssertionError)"
  by (auto simp: GRID_def pad_point_def valid_point_def)

lemma nodes_loop_result:
  "\<forall>pt \<in> set points. valid_point pt \<Longrightarrow>
   nodes_loop points (n, nodes, mnodes) =
   Inr (n + int (length points),
        nodes @ map (\<lambda>i. grid_node (n + 1 + int i) (pad_point (points ! i))) [0..<length points],
        (\<lambda>k. if n < k \<and> k \<le> n + int (length points)
              then Some (grid_node k (pad_point (points ! nat (k - n - 1)))) else mnodes k))"
proof (induction points arbitrary: n nodes mnodes)
  case Nil
  show ?case by (auto simp: fun_eq_iff)
next
  case (Cons pt points)
  from Cons.prems have pt: "valid_point pt" and rest: "\<forall>pt \<in> set points. valid_point pt"
    by simp_all
  have list: "map (\<lambda>i. grid_node (n + 1 + int i) (pad_point ((pt # points) ! i))) [0..<length (pt # points)] =
              grid_node (n + 1) (pad_point pt) #
              map (\<lambda>i. grid_node (n + 1 + 1 + int i) (pad_point (points ! i))) [0..<length points]"
    by (simp add: map_upt_Suc add.commute add.left_commute del: upt_Suc)
  have "nat (k - n - 1) = Suc (nat (k - (n + 1) - 1))" if "n + 1 < k" for k
    using that by simp
  then have fn: "(\<lambda>k. if n + 1 < k \<and> k \<le> n + 1 + int (length points)
                then Some (grid_node k (pad_point (points ! nat (k - (n + 1) - 1))))
                else (mnodes(n + 1 \<mapsto> grid_node (n + 1) (pad_point pt))) k) =
             (\<lambda>k. if n < k \<and> k \<le> n + int (length (pt # points))
                then Some (grid_node k (pad_point ((pt # points) ! nat (k - n - 1)))) else mnodes k)"
    by (auto simp: fun_eq_iff)
  have "nodes_loop (pt # points) (n, nodes, mnodes) =
        nodes_loop points (n + 1, nodes @ [grid_node (n + 1) (pad_point pt)],
          mnodes(n + 1 \<mapsto> grid_node (n + 1) (pad_point pt)))"
    by (simp add: GRID_pad_point pt)
  also have "\<dots> =
        Inr (n + 1 + int (length points),
         (nodes @ [grid_node (n + 1) (pad_point pt)]) @
           map (\<lambda>i. grid_node (n + 1 + 1 + int i) (pad_point (points ! i))) [0..<length points],
         (\<lambda>k. if n + 1 < k \<and> k \<le> n + 1 + int (length points)
               then Some (grid_node k (pad_point (points ! nat (k - (n + 1) - 1))))
               else (mnodes(n + 1 \<mapsto> grid_node (n + 1) (pad_point pt))) k))"
    by (rule Cons.IH [OF rest])
  also have "\<dots> =
        Inr (n + int (length (pt # points)),
         nodes @ map (\<lambda>i. grid_node (n + 1 + int i) (pad_point ((pt # points) ! i)))
                   [0..<length (pt # points)],
         (\<lambda>k. if n < k \<and> k \<le> n + int (length (pt # points))
               then Some (grid_node k (pad_point ((pt # points) ! nat (k - n - 1)))) else mnodes k))"
    unfolding list fn by simp
  finally show ?case .
qed

lemma nodes_loop_invalid:
  "\<not> (\<forall>pt \<in> set points. valid_point pt) \<Longrightarrow>
   nodes_loop points (n, nodes, mnodes) = Inl AssertionError"
proof (induction points arbitrary: n nodes mnodes)
  case Nil
  then show ?case by simp
next
  case (Cons pt points)
  show ?case
  proof (cases "valid_point pt")
    case True
    with Cons.prems have "\<not> (\<forall>pt \<in> set points. valid_point pt)" by simp
    from Cons.IH [OF this] True show ?thesis
      by (simp add: GRID_pad_point)
  next
    case False
    then show ?thesis by (simp add: GRID_pad_point)
  qed
qed

lemma trias_loop_step:
  "trias_loop (row # sx) nodes (e, trias) =
   (if length row \<noteq> 3 then Inl ValueError
    else if \<not> (\<forall>i \<in> set row. valid_index (length nodes) i) then Inl IndexError
    else trias_loop sx nodes (e + 1, trias @ [tria_of_row nodes (e + 1) row]))"
proof -
  consider "row = []" | a where "row = [a]" | a b where "row = [a, b]"
    | a b c where "row = [a, b, c]" | a b c d r where "row = a # b # c # d # r"
    by (metis list.exhaust)
  then show ?thesis
  proof cases
    case 4
    then show ?thesis
      by (auto simp: getitem_eq tria_of_row_def)
  qed auto
qed

lemma trias_loop_valid:
  "\<forall>row \<in> set sx. valid_row (length nodes) row \<Longrightarrow>
   trias_loop sx nodes (e, trias) =
   Inr (trias @ map (\<lambda>j. tria_of_row nodes (e + 1 + int j) (sx ! j)) [0..<length sx])"
proof (induction sx arbitrary: e trias)
  case Nil
  show ?case by simp
next
  case (Cons row sx)
  have list: "map (\<lambda>j. tria_of_row nodes (e + 1 + int j) ((row # sx) ! j)) [0..<length (row # sx)] =
              tria_of_row nodes (e + 1) row #
              map (\<lambda>j. tria_of_row nodes (e + 1 + 1 + int j) (sx ! j)) [0..<length sx]"
    by (simp add: map_upt_Suc add.commute add.left_commute del: upt_Suc)
  from Cons.prems have row: "length row = 3" "\<forall>i \<in> set row. valid_index (length nodes) i"
    and rest: "\<forall>row \<in> set sx. valid_row (length nodes) row"
    by (simp_all add: valid_row_def)
  show ?case
    unfolding trias_loop_step list using row by (simp add: Cons.IH [OF rest])
qed

lemma trias_loop_invalid:
  "\<not> (\<forall>row \<in> set sx. valid_row (length nodes) row) \<Longrightarrow>
   trias_loop sx nodes (e, trias) = Inl ValueError \<or> trias_loop sx nodes (e, trias) = Inl IndexError"
proof (induction sx arbitrary: e trias)
  case Nil
  then show ?case by simp
next
  case (Cons row sx)
  show ?case
  proof (cases "valid_row (length nodes) row")
    case True
    with Cons.prems have "\<not> (\<forall>row \<in> set sx. valid_row (length nodes) row)" by simp
    from Cons.IH [OF this] True show ?thesis
      unfolding trias_loop_step by (simp add: valid_row_def)
  next
    case False
    then show ?thesis
      unfolding trias_loop_step by (auto simp: valid_row_def)
  qed
qed

lemma tria_of_row_cloud:
  assumes "valid_row len row"
  shows "tria_of_row (map (\<lambda>i. grid_node (1 + int i) (pad_point (points ! i))) [0..<len])
           (1 + int j) row = cloud_tria len row j"
proof -
  have "row ! 0 \<in> set row" "row ! 1 \<in> set row" "row ! 2 \<in> set row"
    using assms by (simp_all add: valid_row_def)
  then have "position len (row ! 0) < len" "position len (row ! 1) < len"
    "position len (row ! 2) < len"
    using assms by (simp_all add: valid_row_def position_less)
  then show ?thesis
    by (simp add: tria_of_row_def cloud_tria_def grid_node_def add.commute)
qed

lemma nodes_loop_start:
  "\<forall>pt \<in> set points. valid_point pt \<Longrightarrow>
   nodes_loop points (0, [], Map.empty) =
   Inr (int (length points),
        map (\<lambda>i. grid_node (1 + int i) (pad_point (points ! i))) [0..<length points],
        cloud_nodes points)"
  by (simp add: nodes_loop_result cloud_nodes_def cong: if_cong)

lemma read_delaunay_valid:
  assumes "\<forall>pt \<in> set points. valid_point pt"
    and "\<forall>row \<in> set simplices. valid_row (length points) row"
  shows "read_delaunay points simplices =
         edge_references (cloud_nodes points) (cloud_trias (length points) simplices)"
proof -
  let ?nodes = "map (\<lambda>i. grid_node (1 + int i) (pad_point (points ! i))) [0..<length points]"
  have "trias_loop simplices ?nodes (0, []) =
        Inr ([] @ map (\<lambda>j. tria_of_row ?nodes (0 + 1 + int j) (simplices ! j)) [0..<length simplices])"
    using assms(2) by (intro trias_loop_valid) simp
  also have "map (\<lambda>j. tria_of_row ?nodes (0 + 1 + int j) (simplices ! j)) [0..<length simplices] =
             cloud_trias (length points) simplices"
    unfolding cloud_trias_def
    by (rule map_cong [OF refl]) (simp add: tria_of_row_cloud assms(2))
  finally have loop: "trias_loop simplices ?nodes (0, []) = Inr (cloud_trias (length points) simplices)"
    by simp
  show ?thesis
    by (simp add: read_delaunay_def nodes_loop_start [OF assms(1)] loop)
qed

lemma read_delaunay_invalid_point:
  assumes "\<not> (\<forall>pt \<in> set points. valid_point pt)"
  shows "read_delaunay points simplices = Inl AssertionError"
  by (simp add: read_delaunay_def nodes_loop_invalid [OF assms])

lemma read_delaunay_invalid:
  assumes "\<forall>pt \<in> set points. valid_point pt"
    and "\<not> (\<forall>row \<in> set simplices. valid_row (length points) row)"
  shows "read_delaunay points simplices = Inl ValueError \<or>
         read_delaunay points simplices = Inl IndexError"
proof -
  let ?nodes = "map (\<lambda>i. grid_node (1 + int i) (pad_point (points ! i))) [0..<length points]"
  have "trias_loop simplices ?nodes (0, []) = Inl ValueError \<or>
        trias_loop simplices ?nodes (0, []) = Inl IndexError"
    using assms(2) by (intro trias_loop_invalid) simp
  then show ?thesis
    by (auto simp: read_delaunay_def nodes_loop_start [OF assms(1)])
qed

lemma cloud_trias_present:
  assumes "\<forall>row \<in> set simplices. valid_row (length points) row"
    and "t \<in> set (cloud_trias (length points) simplices)"
    and "n \<in> set (node_id_list t)"
  shows "cloud_nodes points n \<noteq> None"
proof -
  from assms(2) obtain j where j: "j < length simplices"
    and t: "t = cloud_tria (length points) (simplices ! j) j"
    by (auto simp: cloud_trias_def)
  let ?row = "simplices ! j"
  have row: "valid_row (length points) ?row" using assms(1) j by simp
  then have "row ! 0 \<in> set row" if "row = ?row" for row
    using that by (simp add: valid_row_def)
  have in_row: "?row ! 0 \<in> set ?row" "?row ! 1 \<in> set ?row" "?row ! 2 \<in> set ?row"
    using row by (simp_all add: valid_row_def)
  then have "position (length points) (?row ! 0) < length points"
    "position (length points) (?row ! 1) < length points"
    "position (length points) (?row ! 2) < length points"
    using row by (simp_all add: valid_row_def position_less)
  then show ?thesis
    using assms(3) by (auto simp: t cloud_tria_def node_id_list_def cloud_nodes_def)
qed

lemma read_delaunay_succeeds:
  "(\<exists>m. read_delaunay points simplices = Inr m) \<longleftrightarrow>
   (\<forall>pt \<in> set points. valid_point pt) \<and>
   (\<forall>row \<in> set simplices. valid_row (length points) row)"
proof (cases "\<forall>pt \<in> set points. valid_point pt")
  case points: True
  show ?thesis
  proof (cases "\<forall>row \<in> set simplices. valid_row (length points) row")
    case True
    have "\<exists>m. edge_references (cloud_nodes points) (cloud_trias (length points) simplices) = Inr m"
      unfolding edge_references_succeeds using cloud_trias_present [OF True] by blast
    then show ?thesis
      using True points by (simp add: read_delaunay_valid)
  next
    case False
    from read_delaunay_invalid [OF points this] False show ?thesis by auto
  qed
next
  case False
  from read_delaunay_invalid_point [OF this] False show ?thesis by auto
qed

lemma read_delaunay_Inr:
  assumes "read_delaunay points simplices = Inr m"
  shows "\<forall>row \<in> set simplices. valid_row (length points) row"
    and "edge_references (cloud_nodes points) (cloud_trias (length points) simplices) = Inr m"
    and "\<forall>pt \<in> set points. valid_point pt"
proof -
  show valid: "\<forall>row \<in> set simplices. valid_row (length points) row"
    using assms read_delaunay_succeeds by blast
  show points: "\<forall>pt \<in> set points. valid_point pt"
    using assms read_delaunay_succeeds by blast
  show "edge_references (cloud_nodes points) (cloud_trias (length points) simplices) = Inr m"
    using assms by (simp add: read_delaunay_valid [OF points valid])
qed

lemma read_delaunay_built: "read_delaunay points simplices = Inr m \<Longrightarrow> built m"
  unfolding built_def
  by (rule exI, rule exI, rule conjI, erule read_delaunay_Inr(2))
     (auto simp: cloud_nodes_def cloud_trias_def cloud_tria_def grid_node_def split: if_splits)

lemma read_delaunay_nodes:
  assumes "read_delaunay points simplices = Inr m"
  shows "mesh_nodes m n =
         map_option
           (with_trias {eid t |t. t \<in> set (mesh_elements m) \<and> n \<in> set (node_id_list t)} \<circ>
            with_edges {k \<in> fst ` set (mesh_edges m). fst k = n \<or> snd k = n})
           (cloud_nodes points n)"
  by (rule edge_references_result(4) [OF read_delaunay_Inr(2) [OF assms]])

lemma read_delaunay_node:
  assumes "read_delaunay points simplices = Inr m" and "i < length points"
  shows "\<exists>nd. mesh_nodes m (int i + 1) = Some nd \<and> nid nd = int i + 1 \<and>
              xyz nd = pad_point (points ! i)"
proof -
  have "cloud_nodes points (int i + 1) = Some (grid_node (int i + 1) (pad_point (points ! i)))"
    using assms(2) by (simp add: cloud_nodes_def)
  then show ?thesis
    unfolding read_delaunay_nodes [OF assms(1)]
    by (simp add: with_trias_def with_edges_def grid_node_def)
qed

lemma read_delaunay_dom:
  assumes "read_delaunay points simplices = Inr m"
  shows "dom (mesh_nodes m) = {1..int (length points)}"
proof -
  have "mesh_nodes m n \<noteq> None \<longleftrightarrow> 1 \<le> n \<and> n \<le> int (length points)" for n
    unfolding read_delaunay_nodes [OF assms] by (auto simp: cloud_nodes_def)
  then show ?thesis by (auto simp: dom_def)
qed

lemma read_delaunay_elements:
  assumes "read_delaunay points simplices = Inr m"
  shows "length (mesh_elements m) = length simplices"
    and "\<And>j. j < length simplices \<Longrightarrow>
           eid (mesh_elements m ! j) = int j + 1 \<and>
           node_ids (mesh_elements m ! j) =
             (int (position (length points) (simplices ! j ! 0)) + 1,
              int (position (length points) (simplices ! j ! 1)) + 1,
              int (position (length points) (simplices ! j ! 2)) + 1)"
proof -
  note run = read_delaunay_Inr(2) [OF assms]
  have len: "length (cloud_trias (length points) simplices) = length simplices"
    by (simp add: cloud_trias_def)
  show "length (mesh_elements m) = length simplices"
    using edge_references_result(2) [OF run] by (simp add: len)
  show "eid (mesh_elements m ! j) = int j + 1 \<and>
        node_ids (mesh_elements m ! j) =
          (int (position (length points) (simplices ! j ! 0)) + 1,
           int (position (length points) (simplices ! j ! 1)) + 1,
           int (position (length points) (simplices ! j ! 2)) + 1)"
    if "j < length simplices" for j
  proof -
    from that have j: "j < length (cloud_trias (length points) simplices)" by (simp add: len)
    have "cloud_trias (length points) simplices ! j = cloud_tria (length points) (simplices ! j) j"
      using that by (simp add: cloud_trias_def)
    then show ?thesis
      by (simp add: edge_references_result(3) [OF run j] cloud_tria_def)
  qed
qed

section \<open>The returned mesh\<close>

lemma returned_built:
  "read_mesh deck = Inr m \<or> read_delaunay points simplices = Inr m \<Longrightarrow> built m"
  using read_mesh_built read_delaunay_built by blast

lemma built_keys:
  assumes "built m"
  shows "map fst (mesh_edges m) = map fst (group_by_key (occurrences (mesh_elements m)) [])"
    and "distinct (map fst (mesh_edges m))"
    and "fst ` set (mesh_edges m) = (\<Union>t \<in> set (mesh_elements m). set (get_edge_ids t))"
proof -
  have edges: "mesh_edges m = map edge_of_item (group_by_key (occurrences (mesh_elements m)) [])"
    using built_facts(1) [OF assms] by (simp add: accumulate_edges_ids_occurrences)
  show keys: "map fst (mesh_edges m) = map fst (group_by_key (occurrences (mesh_elements m)) [])"
    by (simp add: edges edge_of_item_def comp_def)
  show "distinct (map fst (mesh_edges m))"
    unfolding keys by (rule distinct_group_by_key) simp
  have "fst ` set (mesh_edges m) = set (map fst (mesh_edges m))" by simp
  also have "\<dots> = fst ` set (group_by_key (occurrences (mesh_elements m)) [])"
    unfolding keys by simp
  also have "\<dots> = (\<Union>t \<in> set (mesh_elements m). set (get_edge_ids t))"
    by (simp add: keys_group_by_key keys_occurrences)
  finally show "fst ` set (mesh_edges m) = (\<Union>t \<in> set (mesh_elements m). set (get_edge_ids t))" .
qed

lemma built_edge:
  assumes "built m" and "(k, E) \<in> set (mesh_edges m)"
  shows "edge_n1 E = fst k" and "edge_n2 E = snd k"
    and "edge_trias E = map snd (filter (\<lambda>p. fst p = k) (occurrences (mesh_elements m)))"
    and "k \<in> fst ` set (occurrences (mesh_elements m))"
proof -
  have edges: "mesh_edges m = map edge_of_item (group_by_key (occurrences (mesh_elements m)) [])"
    using built_facts(1) [OF assms(1)] by (simp add: accumulate_edges_ids_occurrences)
  with assms(2) obtain item where item: "item \<in> set (group_by_key (occurrences (mesh_elements m)) [])"
    and kE: "(k, E) = edge_of_item item"
    by auto
  from kE have k: "k = fst item" and E: "E = \<lparr>edge_n1 = fst k, edge_n2 = snd k, edge_trias = snd item\<rparr>"
    by (simp_all add: edge_of_item_def)
  from item have "(k, snd item) \<in> set (group_by_key (occurrences (mesh_elements m)) [])"
    by (simp add: k)
  then have *: "k \<in> fst ` set (occurrences (mesh_elements m)) \<and>
                snd item = map snd (filter (\<lambda>p. fst p = k) (occurrences (mesh_elements m)))"
    by (simp only: group_by_key_items)
  show "edge_n1 E = fst k" "edge_n2 E = snd k" by (simp_all add: E)
  show "edge_trias E = map snd (filter (\<lambda>p. fst p = k) (occurrences (mesh_elements m)))"
    using * by (simp add: E)
  show "k \<in> fst ` set (occurrences (mesh_elements m))" using * by simp
qed

lemma built_tria_edges:
  assumes "built m" and "i < length (mesh_elements m)"
  shows "tria_edges (mesh_elements m ! i) =
         concat (map (\<lambda>k. replicate (count_list (get_edge_ids (mesh_elements m ! i)) k) k)
                   (map fst (mesh_edges m)))"
proof -
  let ?P = "occurrences (mesh_elements m)"
  have edges: "mesh_edges m = map edge_of_item (group_by_key ?P [])"
    using built_facts(1) [OF assms(1)] by (simp add: accumulate_edges_ids_occurrences)
  have "tria_edges (mesh_elements m ! i) =
        map fst (filter (\<lambda>p. snd p = i) (edge_pairs (mesh_edges m)))"
    by (rule built_facts(2) [OF assms])
  also have "edge_pairs (mesh_edges m) =
             concat (map (\<lambda>k. filter (\<lambda>p. fst p = k) ?P) (map fst (mesh_edges m)))"
    unfolding built_keys(1) [OF assms(1)] unfolding edges by (rule edge_pairs_grouped)
  also have "map fst (filter (\<lambda>p. snd p = i) \<dots>) =
             concat (map (\<lambda>k. replicate (count_list (map fst (filter (\<lambda>p. snd p = i) ?P)) k) k)
                       (map fst (mesh_edges m)))"
    by (rule keys_of_tria_grouped)
  also have "map fst (filter (\<lambda>p. snd p = i) ?P) = get_edge_ids (mesh_elements m ! i)"
    by (rule keys_of_tria [OF assms(2)])
  finally show ?thesis .
qed

lemma built_tria_edges_mset:
  assumes "built m" and "i < length (mesh_elements m)"
  shows "mset (tria_edges (mesh_elements m ! i)) = mset (get_edge_ids (mesh_elements m ! i))"
proof -
  have "mesh_elements m ! i \<in> set (mesh_elements m)"
    using assms(2) by simp
  then have "set (get_edge_ids (mesh_elements m ! i)) \<subseteq> fst ` set (mesh_edges m)"
    unfolding built_keys(3) [OF assms(1)] by blast
  then have "set (get_edge_ids (mesh_elements m ! i)) \<subseteq> set (map fst (mesh_edges m))"
    by simp
  then show ?thesis
    unfolding built_tria_edges [OF assms]
    by (rule mset_concat_replicate [OF built_keys(2) [OF assms(1)]])
qed

section \<open>The example inputs are accepted\<close>

lemma two_trias_mesh_returned: "read_mesh two_trias_deck = Inr two_trias_mesh"
proof -
  have "\<not> isl (read_mesh two_trias_deck)" by code_simp
  then show ?thesis by (simp add: two_trias_mesh_def)
qed

lemma fan_mesh_returned: "read_mesh fan_deck = Inr fan_mesh"
proof -
  have "\<not> isl (read_mesh fan_deck)" by code_simp
  then show ?thesis by (simp add: fan_mesh_def)
qed

lemma square_mesh_returned: "read_delaunay square_points square_simplices = Inr square_mesh"
proof -
  have "\<not> isl (read_delaunay square_points square_simplices)" by code_simp
  then show ?thesis by (simp add: square_mesh_def)
qed

lemma mixed_mesh_returned: "read_delaunay mixed_points square_simplices = Inr mixed_mesh"
proof -
  have "\<not> isl (read_delaunay mixed_points square_simplices)" by code_simp
  then show ?thesis by (simp add: mixed_mesh_def)
qed

section \<open>The claims\<close>

text \<open>
  C1 as stated: the edge list of every triangle follows the triangle's local enumeration
  0-1, 1-2, 2-0. It fails on the triangulated unit square and on the deck of two
  triangles: the second triangle has the local keys (2,4), (3,4), (2,3), and its edge
  list starts with the shared edge (2,3), which the first triangle created.
\<close>

theorem local_edge_order_counterexample:
  "map tria_edges (mesh_elements square_mesh) = [[(1, 2), (2, 3), (1, 3)], [(2, 3), (2, 4), (3, 4)]] \<and>
   map get_edge_ids (mesh_elements square_mesh) = [[(1, 2), (2, 3), (1, 3)], [(2, 4), (3, 4), (2, 3)]] \<and>
   read_delaunay square_points square_simplices = Inr square_mesh \<and>
   tria_edges (mesh_elements two_trias_mesh ! 1) \<noteq> get_edge_ids (mesh_elements two_trias_mesh ! 1) \<and>
   read_mesh two_trias_deck = Inr two_trias_mesh"
proof -
  have "map tria_edges (mesh_elements square_mesh) =
        [[(1, 2), (2, 3), (1, 3)], [(2, 3), (2, 4), (3, 4)]]"
    by code_simp
  moreover have "map get_edge_ids (mesh_elements square_mesh) =
        [[(1, 2), (2, 3), (1, 3)], [(2, 4), (3, 4), (2, 3)]]"
    by code_simp
  moreover have "tria_edges (mesh_elements two_trias_mesh ! 1) \<noteq>
        get_edge_ids (mesh_elements two_trias_mesh ! 1)"
    by code_simp
  ultimately show ?thesis
    by (simp only: square_mesh_returned two_trias_mesh_returned simp_thms)
qed

text \<open>
  C1, amended: for every triangle T of the returned mesh, T's edge list has length 3 and
  holds exactly the edges of T's three local node pairs, each as often as T lists its key;
  they stand in edge-creation order, which is the order of the mesh's edge mapping.
\<close>

theorem tria_edges_creation_order:
  assumes "read_mesh deck = Inr m \<or> read_delaunay points simplices = Inr m"
    and "i < length (mesh_elements m)"
  shows "length (tria_edges (mesh_elements m ! i)) = 3 \<and>
         mset (tria_edges (mesh_elements m ! i)) = mset (get_edge_ids (mesh_elements m ! i)) \<and>
         tria_edges (mesh_elements m ! i) =
           concat (map (\<lambda>k. replicate (count_list (get_edge_ids (mesh_elements m ! i)) k) k)
                     (map fst (mesh_edges m)))"
proof -
  have b: "built m" by (rule returned_built [OF assms(1)])
  have ms: "mset (tria_edges (mesh_elements m ! i)) = mset (get_edge_ids (mesh_elements m ! i))"
    by (rule built_tria_edges_mset [OF b assms(2)])
  have "length (tria_edges (mesh_elements m ! i)) = size (mset (tria_edges (mesh_elements m ! i)))"
    by simp
  also have "\<dots> = 3" unfolding ms by simp
  finally show ?thesis
    using ms built_tria_edges [OF b assms(2)] by simp
qed

theorem tria_edges_creation_order_witness:
  "read_mesh two_trias_deck = Inr two_trias_mesh \<and> 1 < length (mesh_elements two_trias_mesh) \<and>
   length (tria_edges (mesh_elements two_trias_mesh ! 1)) = 3 \<and>
   mset (tria_edges (mesh_elements two_trias_mesh ! 1)) =
     mset (get_edge_ids (mesh_elements two_trias_mesh ! 1)) \<and>
   read_delaunay square_points square_simplices = Inr square_mesh \<and>
   0 < length (mesh_elements square_mesh) \<and>
   length (tria_edges (mesh_elements square_mesh ! 0)) = 3"
proof -
  have l1: "1 < length (mesh_elements two_trias_mesh)" by code_simp
  have l2: "0 < length (mesh_elements square_mesh)" by code_simp
  note a = tria_edges_creation_order [OF disjI1 [OF two_trias_mesh_returned] l1]
  note b = tria_edges_creation_order [OF disjI2 [OF square_mesh_returned] l2]
  show ?thesis
    using conjunct1 [OF a] conjunct1 [OF conjunct2 [OF a]] conjunct1 [OF b]
      l1 l2 two_trias_mesh_returned square_mesh_returned
    by simp
qed

text \<open>
  C2. For every triangle T of the returned mesh and each of T's three edge keys, the edge
  mapping holds an edge under that key, whose endpoints are the two nodes of the key and
  whose supporting triangles include T, and both endpoint nodes have that edge in their
  incident-edge sets.
\<close>

theorem tria_keys_registered:
  assumes "read_mesh deck = Inr m \<or> read_delaunay points simplices = Inr m"
    and "i < length (mesh_elements m)"
    and "k \<in> set (get_edge_ids (mesh_elements m ! i))"
  shows "\<exists>E. map_of (mesh_edges m) k = Some E \<and> edge_n1 E = fst k \<and> edge_n2 E = snd k \<and>
             i \<in> set (edge_trias E) \<and>
             (\<exists>nd. mesh_nodes m (fst k) = Some nd \<and> k \<in> node_edges nd) \<and>
             (\<exists>nd. mesh_nodes m (snd k) = Some nd \<and> k \<in> node_edges nd)"
proof -
  have b: "built m" by (rule returned_built [OF assms(1)])
  let ?T = "mesh_elements m ! i"
  have T: "?T \<in> set (mesh_elements m)" using assms(2) by simp
  then have "k \<in> fst ` set (mesh_edges m)"
    unfolding built_keys(3) [OF b] using assms(3) by blast
  then obtain E where E: "(k, E) \<in> set (mesh_edges m)" by force
  then have lookup: "map_of (mesh_edges m) k = Some E"
    using built_keys(2) [OF b] by simp
  have "(k, i) \<in> set (occurrences (mesh_elements m))"
    using assms(2,3) by (simp add: set_occurrences)
  then have "i \<in> set (map snd (filter (\<lambda>p. fst p = k) (occurrences (mesh_elements m))))"
    by force
  then have i: "i \<in> set (edge_trias E)"
    by (simp only: built_edge(3) [OF b E])
  have "{fst k, snd k} \<subseteq> set (node_id_list ?T)"
    using assms(3) keys_node_ids [of ?T] by blast
  then have "mesh_nodes m (fst k) \<noteq> None" "mesh_nodes m (snd k) \<noteq> None"
    using built_facts(4) [OF b T] by simp_all
  then obtain nd1 nd2 where nd: "mesh_nodes m (fst k) = Some nd1" "mesh_nodes m (snd k) = Some nd2"
    by auto
  have "k \<in> node_edges nd1" "k \<in> node_edges nd2"
    using built_facts(3) [OF b nd(1)] built_facts(3) [OF b nd(2)] \<open>k \<in> fst ` set (mesh_edges m)\<close>
    by simp_all
  with lookup i nd built_edge(1,2) [OF b E] show ?thesis by simp
qed

theorem tria_keys_registered_witness:
  "read_mesh two_trias_deck = Inr two_trias_mesh \<and> 1 < length (mesh_elements two_trias_mesh) \<and>
   (2, 3) \<in> set (get_edge_ids (mesh_elements two_trias_mesh ! 1)) \<and>
   (\<exists>E. map_of (mesh_edges two_trias_mesh) (2, 3) = Some E \<and> edge_n1 E = 2 \<and> edge_n2 E = 3 \<and>
        1 \<in> set (edge_trias E) \<and>
        (\<exists>nd. mesh_nodes two_trias_mesh 2 = Some nd \<and> (2, 3) \<in> node_edges nd) \<and>
        (\<exists>nd. mesh_nodes two_trias_mesh 3 = Some nd \<and> (2, 3) \<in> node_edges nd))"
proof -
  have l: "1 < length (mesh_elements two_trias_mesh)" by code_simp
  have k: "(2, 3) \<in> set (get_edge_ids (mesh_elements two_trias_mesh ! 1))" by code_simp
  show ?thesis
    using tria_keys_registered [OF disjI1 [OF two_trias_mesh_returned] l k]
      l k two_trias_mesh_returned
    by simp
qed

text \<open>
  C3. \<open>read_mesh\<close> returns a mesh exactly when every element is a \<open>CTRIA3\<close> whose node
  ids are keys of the node mapping, whatever the number of triangles around an edge. In a
  returned mesh the supporting-triangle list of every edge is non-empty, and every
  triangle in it has the edge in its own edge list.
\<close>

theorem edge_trias_supported:
  "((\<exists>m. read_mesh deck = Inr m) \<longleftrightarrow>
      (\<forall>e \<in> set (bdf_elements deck). is_CTRIA3 e \<and>
         (\<forall>n \<in> set (node_id_list (the_tria e)). bdf_nodes deck n \<noteq> None))) \<and>
   (\<forall>m k E. (read_mesh deck = Inr m \<or> read_delaunay points simplices = Inr m) \<longrightarrow>
      (k, E) \<in> set (mesh_edges m) \<longrightarrow>
      edge_trias E \<noteq> [] \<and>
      (\<forall>i \<in> set (edge_trias E).
         i < length (mesh_elements m) \<and> k \<in> set (tria_edges (mesh_elements m ! i))))"
proof (intro conjI allI impI)
  show "(\<exists>m. read_mesh deck = Inr m) \<longleftrightarrow>
        (\<forall>e \<in> set (bdf_elements deck). is_CTRIA3 e \<and>
           (\<forall>n \<in> set (node_id_list (the_tria e)). bdf_nodes deck n \<noteq> None))"
    by (rule read_mesh_succeeds)
next
  fix m k E
  assume ret: "read_mesh deck = Inr m \<or> read_delaunay points simplices = Inr m"
    and E: "(k, E) \<in> set (mesh_edges m)"
  have b: "built m" by (rule returned_built [OF ret])
  let ?P = "occurrences (mesh_elements m)"
  have trias: "edge_trias E = map snd (filter (\<lambda>p. fst p = k) ?P)"
    by (rule built_edge(3) [OF b E])
  have "k \<in> fst ` set ?P" by (rule built_edge(4) [OF b E])
  then obtain p where "p \<in> set ?P" "fst p = k" by auto
  then have "filter (\<lambda>p. fst p = k) ?P \<noteq> []"
    by (auto simp: filter_empty_conv)
  then show "edge_trias E \<noteq> []" by (simp add: trias)
  show "\<forall>i \<in> set (edge_trias E).
          i < length (mesh_elements m) \<and> k \<in> set (tria_edges (mesh_elements m ! i))"
  proof
    fix i assume "i \<in> set (edge_trias E)"
    then have "(k, i) \<in> set ?P" unfolding trias by force
    then have i: "i < length (mesh_elements m)"
      and k: "k \<in> set (get_edge_ids (mesh_elements m ! i))"
      by (simp_all add: set_occurrences)
    have "set (tria_edges (mesh_elements m ! i)) = set (get_edge_ids (mesh_elements m ! i))"
      using built_tria_edges_mset [OF b i] by (rule mset_eq_setD)
    with i k show "i < length (mesh_elements m) \<and> k \<in> set (tria_edges (mesh_elements m ! i))"
      by simp
  qed
qed

theorem edge_trias_supported_witness:
  "read_mesh fan_deck = Inr fan_mesh \<and>
   ((1, 2), \<lparr>edge_n1 = 1, edge_n2 = 2, edge_trias = [0, 1, 2]\<rparr>) \<in> set (mesh_edges fan_mesh) \<and>
   length (mesh_elements fan_mesh) = 3 \<and>
   (1, 2) \<in> set (tria_edges (mesh_elements fan_mesh ! 0)) \<and>
   (1, 2) \<in> set (tria_edges (mesh_elements fan_mesh ! 1)) \<and>
   (1, 2) \<in> set (tria_edges (mesh_elements fan_mesh ! 2))"
proof -
  have E: "((1, 2), \<lparr>edge_n1 = 1, edge_n2 = 2, edge_trias = [0, 1, 2]\<rparr>) \<in> set (mesh_edges fan_mesh)"
    by code_simp
  have l: "length (mesh_elements fan_mesh) = 3" by code_simp
  note a = edge_trias_supported [of fan_deck, THEN conjunct2, rule_format,
      OF disjI1 [OF fan_mesh_returned] E]
  show ?thesis
    using a E l fan_mesh_returned by simp
qed

text \<open>
  C4. If some element of the deck is not a \<open>CTRIA3\<close>, \<open>read_mesh\<close> raises
  \<open>NotImplementedError\<close> and returns no mesh; if every element is a \<open>CTRIA3\<close>, it does
  not raise \<open>NotImplementedError\<close>.
\<close>

theorem read_mesh_unsupported_element:
  "((\<exists>e \<in> set (bdf_elements deck). \<not> is_CTRIA3 e) \<longrightarrow>
      (\<exists>ty. read_mesh deck = Inl (NotImplementedError ty))) \<and>
   ((\<forall>e \<in> set (bdf_elements deck). is_CTRIA3 e) \<longrightarrow>
      (\<forall>ty. read_mesh deck \<noteq> Inl (NotImplementedError ty)))"
proof (intro conjI impI allI)
  assume "\<exists>e \<in> set (bdf_elements deck). \<not> is_CTRIA3 e"
  then obtain e where "e \<in> set (bdf_elements deck)" "\<not> is_CTRIA3 e" by auto
  from collect_trias_other [OF this, of "[]"]
  show "\<exists>ty. read_mesh deck = Inl (NotImplementedError ty)"
    by (auto simp: read_mesh_def)
next
  fix ty
  assume all: "\<forall>e \<in> set (bdf_elements deck). is_CTRIA3 e"
  have eq: "read_mesh deck =
        edge_references (\<lambda>n. map_option init_node (bdf_nodes deck n))
          (map (init_tria \<circ> the_tria) (bdf_elements deck))"
    by (simp add: read_mesh_def collect_trias_all [OF all])
  show "read_mesh deck \<noteq> Inl (NotImplementedError ty)"
  proof
    assume "read_mesh deck = Inl (NotImplementedError ty)"
    then have "\<exists>n. NotImplementedError ty = KeyError n"
      unfolding eq by (rule edge_references_error)
    then show False by simp
  qed
qed

theorem read_mesh_unsupported_element_witness:
  "(\<exists>ty. read_mesh quad_deck = Inl (NotImplementedError ty)) \<and>
   (\<forall>ty. read_mesh two_trias_deck \<noteq> Inl (NotImplementedError ty))"
  using read_mesh_unsupported_element [of quad_deck]
    read_mesh_unsupported_element [of two_trias_deck]
  by (simp add: quad_deck_def two_trias_deck_def ctria3_def)

text \<open>
  C5. No two entries of the returned mesh's edge mapping have the same unordered pair of
  endpoints, neither as keys nor as the endpoint nodes of the two \<open>Edge\<close> records.
\<close>

theorem edge_keys_unique:
  assumes "read_mesh deck = Inr m \<or> read_delaunay points simplices = Inr m"
    and "i < length (mesh_edges m)" and "j < length (mesh_edges m)" and "i \<noteq> j"
  shows "{fst (fst (mesh_edges m ! i)), snd (fst (mesh_edges m ! i))} \<noteq>
         {fst (fst (mesh_edges m ! j)), snd (fst (mesh_edges m ! j))} \<and>
         {edge_n1 (snd (mesh_edges m ! i)), edge_n2 (snd (mesh_edges m ! i))} \<noteq>
         {edge_n1 (snd (mesh_edges m ! j)), edge_n2 (snd (mesh_edges m ! j))}"
proof -
  have b: "built m" by (rule returned_built [OF assms(1)])
  let ?ki = "fst (mesh_edges m ! i)" and ?kj = "fst (mesh_edges m ! j)"
  have ne: "?ki \<noteq> ?kj"
    using built_keys(2) [OF b] assms(2-4) by (auto simp: distinct_conv_nth)
  have mem: "mesh_edges m ! i \<in> set (mesh_edges m)" "mesh_edges m ! j \<in> set (mesh_edges m)"
    using assms(2,3) by simp_all
  then have "?ki \<in> fst ` set (mesh_edges m)" "?kj \<in> fst ` set (mesh_edges m)"
    by simp_all
  then have "fst ?ki \<le> snd ?ki" "fst ?kj \<le> snd ?kj"
    unfolding built_keys(3) [OF b] using keys_sorted by blast+
  with ne have keys: "{fst ?ki, snd ?ki} \<noteq> {fst ?kj, snd ?kj}"
    by (auto simp: doubleton_eq_iff prod_eq_iff)
  have "(?ki, snd (mesh_edges m ! i)) \<in> set (mesh_edges m)"
    "(?kj, snd (mesh_edges m ! j)) \<in> set (mesh_edges m)"
    using mem by simp_all
  then have "edge_n1 (snd (mesh_edges m ! i)) = fst ?ki" "edge_n2 (snd (mesh_edges m ! i)) = snd ?ki"
    "edge_n1 (snd (mesh_edges m ! j)) = fst ?kj" "edge_n2 (snd (mesh_edges m ! j)) = snd ?kj"
    using built_edge(1,2) [OF b] by blast+
  with keys show ?thesis by simp
qed

theorem edge_keys_unique_witness:
  "read_mesh two_trias_deck = Inr two_trias_mesh \<and>
   1 < length (mesh_edges two_trias_mesh) \<and> 4 < length (mesh_edges two_trias_mesh) \<and>
   {fst (fst (mesh_edges two_trias_mesh ! 1)), snd (fst (mesh_edges two_trias_mesh ! 1))} \<noteq>
   {fst (fst (mesh_edges two_trias_mesh ! 4)), snd (fst (mesh_edges two_trias_mesh ! 4))}"
proof -
  have l1: "1 < length (mesh_edges two_trias_mesh)" by code_simp
  have l2: "4 < length (mesh_edges two_trias_mesh)" by code_simp
  have ne: "(1::nat) \<noteq> 4" by simp
  note a = edge_keys_unique [OF disjI1 [OF two_trias_mesh_returned] l1 l2 ne]
  show ?thesis
    using conjunct1 [OF a] l1 l2 two_trias_mesh_returned by simp
qed

text \<open>
  C6. In the returned mesh, the incident-triangle set of the node stored under the id n
  is exactly the set of ids of the triangles whose node list contains n, and its
  incident-edge set is exactly the set of edges of the edge mapping whose key contains n.
\<close>

theorem node_incidence_exact:
  assumes "read_mesh deck = Inr m \<or> read_delaunay points simplices = Inr m"
    and "mesh_nodes m n = Some nd"
  shows "node_trias nd = {eid t |t. t \<in> set (mesh_elements m) \<and> n \<in> set (node_id_list t)} \<and>
         node_edges nd = {k \<in> fst ` set (mesh_edges m). fst k = n \<or> snd k = n}"
  by (rule built_facts(3) [OF returned_built [OF assms(1)] assms(2)])

theorem node_incidence_exact_witness:
  "read_mesh two_trias_deck = Inr two_trias_mesh \<and>
   mesh_nodes two_trias_mesh 2 = Some (the (mesh_nodes two_trias_mesh 2)) \<and>
   node_trias (the (mesh_nodes two_trias_mesh 2)) =
     {eid t |t. t \<in> set (mesh_elements two_trias_mesh) \<and> 2 \<in> set (node_id_list t)} \<and>
   node_edges (the (mesh_nodes two_trias_mesh 2)) =
     {k \<in> fst ` set (mesh_edges two_trias_mesh). fst k = 2 \<or> snd k = 2} \<and>
   node_trias (the (mesh_nodes two_trias_mesh 2)) = {1, 2} \<and>
   node_edges (the (mesh_nodes two_trias_mesh 2)) = {(1, 2), (2, 3), (2, 4)}"
proof -
  have "mesh_nodes two_trias_mesh 2 \<noteq> None" by code_simp
  then have nd: "mesh_nodes two_trias_mesh 2 = Some (the (mesh_nodes two_trias_mesh 2))"
    by simp
  have t: "node_trias (the (mesh_nodes two_trias_mesh 2)) = {1, 2}" by code_simp
  have e: "node_edges (the (mesh_nodes two_trias_mesh 2)) = {(1, 2), (2, 3), (2, 4)}" by code_simp
  note a = node_incidence_exact [OF disjI1 [OF two_trias_mesh_returned] nd]
  show ?thesis
    using conjunct1 [OF a] conjunct2 [OF a] nd t e two_trias_mesh_returned
    by (intro conjI) simp_all
qed

text \<open>
  C7. When \<open>read_delaunay\<close> returns, the node mapping has exactly the ids 1 up to the
  number of points; the node with id i + 1 is made of point i, a point of two coordinates
  getting a zero third coordinate; and the triangle at position j has the id j + 1 and
  the ids of the nodes that row j of the triangulation indexes.
\<close>

theorem read_delaunay_sequential_ids:
  assumes "read_delaunay points simplices = Inr m"
  shows "dom (mesh_nodes m) = {1..int (length points)} \<and>
         (\<forall>i < length points. \<exists>nd. mesh_nodes m (int i + 1) = Some nd \<and> nid nd = int i + 1 \<and>
            (length (points ! i) = 2 \<longrightarrow> xyz nd = [points ! i ! 0, points ! i ! 1, 0])) \<and>
         length (mesh_elements m) = length simplices \<and>
         (\<forall>j < length simplices.
            eid (mesh_elements m ! j) = int j + 1 \<and>
            node_ids (mesh_elements m ! j) =
              (int (position (length points) (simplices ! j ! 0)) + 1,
               int (position (length points) (simplices ! j ! 1)) + 1,
               int (position (length points) (simplices ! j ! 2)) + 1))"
proof (intro conjI allI impI)
  show "dom (mesh_nodes m) = {1..int (length points)}"
    by (rule read_delaunay_dom [OF assms])
next
  fix i assume "i < length points"
  from read_delaunay_node [OF assms this]
  show "\<exists>nd. mesh_nodes m (int i + 1) = Some nd \<and> nid nd = int i + 1 \<and>
          (length (points ! i) = 2 \<longrightarrow> xyz nd = [points ! i ! 0, points ! i ! 1, 0])"
    by (auto simp: pad_point_def)
next
  show "length (mesh_elements m) = length simplices"
    by (rule read_delaunay_elements(1) [OF assms])
next
  fix j assume "j < length simplices"
  then show "eid (mesh_elements m ! j) = int j + 1"
    and "node_ids (mesh_elements m ! j) =
          (int (position (length points) (simplices ! j ! 0)) + 1,
           int (position (length points) (simplices ! j ! 1)) + 1,
           int (position (length points) (simplices ! j ! 2)) + 1)"
    using read_delaunay_elements(2) [OF assms] by simp_all
qed

theorem read_delaunay_sequential_ids_witness:
  "read_delaunay square_points square_simplices = Inr square_mesh \<and>
   dom (mesh_nodes square_mesh) = {1..4} \<and>
   (\<exists>nd. mesh_nodes square_mesh 4 = Some nd \<and> nid nd = 4 \<and> xyz nd = [1, 1, 0]) \<and>
   map eid (mesh_elements square_mesh) = [1, 2] \<and>
   map node_ids (mesh_elements square_mesh) = [(1, 2, 3), (2, 4, 3)]"
proof -
  note a = read_delaunay_sequential_ids [OF square_mesh_returned]
  have d: "dom (mesh_nodes square_mesh) = {1..4}"
    using conjunct1 [OF a] by (simp add: square_points_def)
  have "(3::nat) < length square_points" "length (square_points ! 3) = 2"
    by (simp_all add: square_points_def)
  with conjunct1 [OF conjunct2 [OF a]]
  have n: "\<exists>nd. mesh_nodes square_mesh 4 = Some nd \<and> nid nd = 4 \<and> xyz nd = [1, 1, 0]"
    by (auto simp: square_points_def)
  have e: "map eid (mesh_elements square_mesh) = [1, 2]" by code_simp
  have i: "map node_ids (mesh_elements square_mesh) = [(1, 2, 3), (2, 4, 3)]" by code_simp
  show ?thesis
    using d n e i square_mesh_returned by (intro conjI)
qed

text \<open>
  C8. The supporting-triangle list of every edge of the returned mesh lists the triangles
  that have the edge's key in the order in which the accumulation pass processes them:
  by ascending position in the triangle list, each triangle as often as it lists the key.
\<close>

theorem edge_trias_processing_order:
  assumes "read_mesh deck = Inr m \<or> read_delaunay points simplices = Inr m"
    and "(k, E) \<in> set (mesh_edges m)"
  shows "edge_trias E =
           concat (map (\<lambda>i. replicate (count_list (get_edge_ids (mesh_elements m ! i)) k) i)
                     [0..<length (mesh_elements m)]) \<and>
         sorted (edge_trias E)"
proof -
  have b: "built m" by (rule returned_built [OF assms(1)])
  have eq: "edge_trias E =
           concat (map (\<lambda>i. replicate (count_list (get_edge_ids (mesh_elements m ! i)) k) i)
                     [0..<length (mesh_elements m)])"
    unfolding built_edge(3) [OF b assms(2)] by (rule trias_of_key)
  moreover have "sorted (edge_trias E)"
    unfolding eq by (rule sorted_concat_replicate)
  ultimately show ?thesis by simp
qed

theorem edge_trias_processing_order_witness:
  "read_mesh fan_deck = Inr fan_mesh \<and>
   ((1, 4), \<lparr>edge_n1 = 1, edge_n2 = 4, edge_trias = [1, 2]\<rparr>) \<in> set (mesh_edges fan_mesh) \<and>
   [1, 2] =
     concat (map (\<lambda>i. replicate (count_list (get_edge_ids (mesh_elements fan_mesh ! i)) (1, 4)) i)
               [0..<length (mesh_elements fan_mesh)])"
proof -
  have E: "((1, 4), \<lparr>edge_n1 = 1, edge_n2 = 4, edge_trias = [1, 2]\<rparr>) \<in> set (mesh_edges fan_mesh)"
    by code_simp
  note a = edge_trias_processing_order [OF disjI1 [OF fan_mesh_returned] E]
  show ?thesis
    using conjunct1 [OF a] E fan_mesh_returned by simp
qed

text \<open>
  C9. If the returned mesh has exactly two triangles, each with three distinct node ids,
  and the two have exactly one edge key in common, then the edge mapping has exactly 5
  entries; the edge under the common key is supported by both triangles, in this order,
  and every other edge by exactly one; so one entry has 2 supporting triangles and four
  entries have 1.
\<close>

theorem two_trias_five_edges:
  assumes "read_mesh deck = Inr m \<or> read_delaunay points simplices = Inr m"
    and "mesh_elements m = [t1, t2]"
    and "distinct (node_id_list t1)" and "distinct (node_id_list t2)"
    and "card (set (get_edge_ids t1) \<inter> set (get_edge_ids t2)) = 1"
  shows "length (mesh_edges m) = 5 \<and>
         (\<forall>k E. (k, E) \<in> set (mesh_edges m) \<longrightarrow>
            (if k \<in> set (get_edge_ids t1) \<inter> set (get_edge_ids t2) then edge_trias E = [0, 1]
             else length (edge_trias E) = 1)) \<and>
         length (filter (\<lambda>p. length (edge_trias (snd p)) = 2) (mesh_edges m)) = 1 \<and>
         length (filter (\<lambda>p. length (edge_trias (snd p)) = 1) (mesh_edges m)) = 4"
proof -
  have b: "built m" by (rule returned_built [OF assms(1)])
  let ?k1 = "get_edge_ids t1" and ?k2 = "get_edge_ids t2"
  let ?S = "set ?k1 \<inter> set ?k2"
  have d1: "distinct ?k1" and d2: "distinct ?k2"
    using assms(3,4) by (simp_all add: distinct_get_edge_ids)
  have c1: "card (set ?k1) = 3" and c2: "card (set ?k2) = 3"
    using d1 d2 by (simp_all add: distinct_card)
  have keys: "fst ` set (mesh_edges m) = set ?k1 \<union> set ?k2"
    unfolding built_keys(3) [OF b] assms(2) by auto
  have "card (set ?k1 \<union> set ?k2) + card ?S = card (set ?k1) + card (set ?k2)"
    using card_Un_Int [of "set ?k1" "set ?k2"] by simp
  then have cu: "card (set ?k1 \<union> set ?k2) = 5"
    using c1 c2 assms(5) by simp
  have "length (mesh_edges m) = length (map fst (mesh_edges m))" by simp
  also have "\<dots> = card (set (map fst (mesh_edges m)))"
    using built_keys(2) [OF b] by (simp only: distinct_card)
  also have "\<dots> = 5" using keys cu by simp
  finally have len: "length (mesh_edges m) = 5" .
  have each: "if k \<in> ?S then edge_trias E = [0, 1] else length (edge_trias E) = 1"
    if E: "(k, E) \<in> set (mesh_edges m)" for k E
  proof -
    have "k \<in> fst ` set (mesh_edges m)" using E by force
    then have k: "k \<in> set ?k1 \<or> k \<in> set ?k2" unfolding keys by simp
    have "edge_trias E =
          concat (map (\<lambda>i. replicate (count_list (get_edge_ids (mesh_elements m ! i)) k) i)
                    [0..<length (mesh_elements m)])"
      unfolding built_edge(3) [OF b E] by (rule trias_of_key)
    also have "\<dots> = replicate (count_list ?k1 k) 0 @ replicate (count_list ?k2 k) 1"
      by (simp add: assms(2) upt_rec)
    finally show ?thesis
      using k by (auto simp: count_list_distinct [OF d1] count_list_distinct [OF d2])
  qed
  have two: "filter (\<lambda>p. length (edge_trias (snd p)) = 2) (mesh_edges m) =
             filter (\<lambda>p. fst p \<in> ?S) (mesh_edges m)"
  proof (rule filter_cong [OF refl])
    fix p assume "p \<in> set (mesh_edges m)"
    then have "(fst p, snd p) \<in> set (mesh_edges m)" by simp
    from each [OF this] show "(length (edge_trias (snd p)) = 2) = (fst p \<in> ?S)"
      by (auto split: if_splits)
  qed
  have one: "filter (\<lambda>p. length (edge_trias (snd p)) = 1) (mesh_edges m) =
             filter (\<lambda>p. \<not> fst p \<in> ?S) (mesh_edges m)"
  proof (rule filter_cong [OF refl])
    fix p assume "p \<in> set (mesh_edges m)"
    then have "(fst p, snd p) \<in> set (mesh_edges m)" by simp
    from each [OF this] show "(length (edge_trias (snd p)) = 1) = (\<not> fst p \<in> ?S)"
      by (auto split: if_splits)
  qed
  have sub: "?S \<subseteq> fst ` set (mesh_edges m)" unfolding keys by blast
  have n2: "length (filter (\<lambda>p. fst p \<in> ?S) (mesh_edges m)) = 1"
    unfolding length_filter_keys [OF built_keys(2) [OF b] sub] by (rule assms(5))
  have "length (filter (\<lambda>p. fst p \<in> ?S) (mesh_edges m)) +
        length (filter (\<lambda>p. \<not> fst p \<in> ?S) (mesh_edges m)) = length (mesh_edges m)"
    by (rule sum_length_filter_compl)
  then have n1: "length (filter (\<lambda>p. \<not> fst p \<in> ?S) (mesh_edges m)) = 4"
    using n2 len by simp
  show ?thesis
    using len each unfolding two one using n1 n2 by blast
qed

theorem two_trias_five_edges_witness:
  "read_delaunay square_points square_simplices = Inr square_mesh \<and>
   mesh_elements square_mesh = [mesh_elements square_mesh ! 0, mesh_elements square_mesh ! 1] \<and>
   distinct (node_id_list (mesh_elements square_mesh ! 0)) \<and>
   distinct (node_id_list (mesh_elements square_mesh ! 1)) \<and>
   card (set (get_edge_ids (mesh_elements square_mesh ! 0)) \<inter>
         set (get_edge_ids (mesh_elements square_mesh ! 1))) = 1 \<and>
   length (mesh_edges square_mesh) = 5 \<and>
   length (filter (\<lambda>p. length (edge_trias (snd p)) = 2) (mesh_edges square_mesh)) = 1 \<and>
   length (filter (\<lambda>p. length (edge_trias (snd p)) = 1) (mesh_edges square_mesh)) = 4"
proof -
  have e: "mesh_elements square_mesh = [mesh_elements square_mesh ! 0, mesh_elements square_mesh ! 1]"
    by code_simp
  have d1: "distinct (node_id_list (mesh_elements square_mesh ! 0))" by code_simp
  have d2: "distinct (node_id_list (mesh_elements square_mesh ! 1))" by code_simp
  have "set (get_edge_ids (mesh_elements square_mesh ! 0)) \<inter>
        set (get_edge_ids (mesh_elements square_mesh ! 1)) = {(2, 3)}"
    by code_simp
  then have c: "card (set (get_edge_ids (mesh_elements square_mesh ! 0)) \<inter>
                      set (get_edge_ids (mesh_elements square_mesh ! 1))) = 1"
    by simp
  note a = two_trias_five_edges [OF disjI2 [OF square_mesh_returned] e d1 d2 c]
  show ?thesis
    using conjunct1 [OF a] conjunct2 [OF conjunct2 [OF a]] e d1 d2 c square_mesh_returned
    by (intro conjI) simp_all
qed

text \<open>
  C10 as stated: a point whose length is not 2 is stored unchanged, whatever its length,
  and no error is raised. It fails on a single point of length 1 and on points of the
  lengths 2, 1, 3 and 4: the constructor \<open>GRID\<close> refuses the point of length 1 at line 98
  and \<open>read_delaunay\<close> returns no mesh.
\<close>

theorem point_dimension_counterexample:
  "read_delaunay [[1]] [] = Inl AssertionError \<and>
   read_delaunay ragged_points square_simplices = Inl AssertionError"
  by (simp add: read_delaunay_def GRID_def pad_point_def ragged_points_def)

text \<open>
  C10, amended: only a point with exactly 2 coordinates is padded with a zero third
  coordinate, and a point with 3 coordinates is stored unchanged. \<open>read_delaunay\<close> has no
  check of its own, but a point of any other length makes \<open>GRID\<close> raise
  \<open>AssertionError\<close>, whatever the triangulation; \<open>read_delaunay\<close> returns a mesh exactly
  when every point has 2 or 3 coordinates and every row of the triangulation unpacks
  into three indices that the list of nodes accepts.
\<close>

theorem read_delaunay_point_dimension:
  "((\<exists>m. read_delaunay points simplices = Inr m) \<longleftrightarrow>
      (\<forall>pt \<in> set points. length pt = 2 \<or> length pt = 3) \<and>
      (\<forall>row \<in> set simplices. valid_row (length points) row)) \<and>
   ((\<exists>pt \<in> set points. length pt \<noteq> 2 \<and> length pt \<noteq> 3) \<longrightarrow>
      read_delaunay points simplices = Inl AssertionError) \<and>
   (\<forall>m i. read_delaunay points simplices = Inr m \<longrightarrow> i < length points \<longrightarrow>
      (length (points ! i) = 2 \<or> length (points ! i) = 3) \<and>
      (\<exists>nd. mesh_nodes m (int i + 1) = Some nd \<and>
         xyz nd = (if length (points ! i) = 2 then [points ! i ! 0, points ! i ! 1, 0]
                   else points ! i)))"
proof (intro conjI allI impI)
  show "(\<exists>m. read_delaunay points simplices = Inr m) \<longleftrightarrow>
        (\<forall>pt \<in> set points. length pt = 2 \<or> length pt = 3) \<and>
        (\<forall>row \<in> set simplices. valid_row (length points) row)"
    using read_delaunay_succeeds [of points simplices] by (simp add: valid_point_def)
next
  assume "\<exists>pt \<in> set points. length pt \<noteq> 2 \<and> length pt \<noteq> 3"
  then have "\<not> (\<forall>pt \<in> set points. valid_point pt)"
    by (auto simp: valid_point_def)
  then show "read_delaunay points simplices = Inl AssertionError"
    by (rule read_delaunay_invalid_point)
next
  fix m i
  assume run: "read_delaunay points simplices = Inr m" and i: "i < length points"
  have "valid_point (points ! i)"
    using read_delaunay_Inr(3) [OF run] i by simp
  then show "length (points ! i) = 2 \<or> length (points ! i) = 3"
    by (simp add: valid_point_def)
  from read_delaunay_node [OF run i]
  show "\<exists>nd. mesh_nodes m (int i + 1) = Some nd \<and>
          xyz nd = (if length (points ! i) = 2 then [points ! i ! 0, points ! i ! 1, 0]
                    else points ! i)"
    by (auto simp: pad_point_def)
qed

theorem read_delaunay_point_dimension_witness:
  "read_delaunay mixed_points square_simplices = Inr mixed_mesh \<and>
   (\<exists>nd. mesh_nodes mixed_mesh 1 = Some nd \<and> xyz nd = [0, 0, 0]) \<and>
   (\<exists>nd. mesh_nodes mixed_mesh 2 = Some nd \<and> xyz nd = [1, 0, 0]) \<and>
   (\<exists>nd. mesh_nodes mixed_mesh 4 = Some nd \<and> xyz nd = [1, 1, 5]) \<and>
   read_delaunay ragged_points square_simplices = Inl AssertionError"
proof -
  note a = read_delaunay_point_dimension [of mixed_points square_simplices]
  note b = a [THEN conjunct2, THEN conjunct2, rule_format, OF mixed_mesh_returned, THEN conjunct2]
  have "\<exists>nd. mesh_nodes mixed_mesh 1 = Some nd \<and> xyz nd = [0, 0, 0]"
    using b [of 0] by (simp add: mixed_points_def)
  moreover have "\<exists>nd. mesh_nodes mixed_mesh 2 = Some nd \<and> xyz nd = [1, 0, 0]"
    using b [of 1] by (simp add: mixed_points_def)
  moreover have "\<exists>nd. mesh_nodes mixed_mesh 4 = Some nd \<and> xyz nd = [1, 1, 5]"
    using b [of 3] by (simp add: mixed_points_def)
  moreover have "read_delaunay ragged_points square_simplices = Inl AssertionError"
    using read_delaunay_point_dimension [of ragged_points square_simplices,
        THEN conjunct2, THEN conjunct1]
    by (simp add: ragged_points_def)
  ultimately show ?thesis
    using mixed_mesh_returned by (intro conjI)
qed

end
